theory Spec2Isabelle
  imports Main "HOL-Library.AList" "HOL-Library.Sublist"
begin

section \<open>JavaScript values the scraper relies on\<close>

text \<open>
  The development embeds the latest revision of the scraper (\<^verbatim>\<open>CsvHandler\<close>,
  \<^verbatim>\<open>ProgressHandler\<close>, \<^verbatim>\<open>safeWriteFileSync\<close>, \<^verbatim>\<open>BaseScraper\<close>,
  \<^verbatim>\<open>configureAxiosRetryInstance\<close>). Page numbers are JavaScript numbers that only ever
  hold integers here, so they are \<^typ>\<open>nat\<close> where the code can only produce a count and
  \<^typ>\<open>int\<close> where a value read back from a file may be anything.
\<close>

subsection \<open>Numbers in template literals\<close>

definition digit_char :: "nat \<Rightarrow> char" where
  "digit_char d = char_of (48 + d)"

fun string_of_nat :: "nat \<Rightarrow> string" where
  "string_of_nat n =
     (if n < 10 then [digit_char n]
      else string_of_nat (n div 10) @ [digit_char (n mod 10)])"

declare string_of_nat.simps [simp del]

definition string_of_int :: "int \<Rightarrow> string" where
  "string_of_int i =
     (if i < 0 then CHR ''-'' # string_of_nat (nat (- i)) else string_of_nat (nat i))"

definition is_digit :: "char \<Rightarrow> bool" where
  "is_digit c = (48 \<le> (of_char c :: nat) \<and> (of_char c :: nat) \<le> 57)"

definition digit_val :: "char \<Rightarrow> nat" where
  "digit_val c = of_char c - 48"

text \<open>\<^verbatim>\<open>parseInt\<close> on a non-empty run of decimal digits.\<close>

definition nat_of_digits :: "string \<Rightarrow> nat" where
  "nat_of_digits ds = foldl (\<lambda>acc c. 10 * acc + digit_val c) 0 ds"

definition parse_int :: "string \<Rightarrow> int option" where
  "parse_int t =
     (case t of
        [] \<Rightarrow> None
      | c # cs \<Rightarrow>
          if c = CHR ''-'' then
            (if cs \<noteq> [] \<and> list_all is_digit cs then Some (- int (nat_of_digits cs)) else None)
          else if list_all is_digit t then Some (int (nat_of_digits t)) else None)"

subsection \<open>Strings\<close>

text \<open>\<^verbatim>\<open>s.startsWith(p)\<close> and \<^verbatim>\<open>s.includes(p)\<close>.\<close>

definition startsWith :: "string \<Rightarrow> string \<Rightarrow> bool" where
  "startsWith s p = prefix p s"

definition str_includes :: "string \<Rightarrow> string \<Rightarrow> bool" where
  "str_includes s p = sublist p s"

text \<open>
  A string used as a condition is true exactly when it is non-empty; an absent property
  (\<^verbatim>\<open>undefined\<close>) is false.
\<close>

definition truthy :: "string option \<Rightarrow> bool" where
  "truthy v = (case v of None \<Rightarrow> False | Some t \<Rightarrow> t \<noteq> [])"

definition is_space :: "char \<Rightarrow> bool" where
  "is_space c = ((of_char c :: nat) \<in> {9, 10, 11, 12, 13, 32})"

text \<open>\<^verbatim>\<open>text.trim()\<close>, on the ASCII white space characters.\<close>

definition trim :: "string \<Rightarrow> string" where
  "trim t = rev (dropWhile is_space (rev (dropWhile is_space t)))"

section \<open>Files\<close>

text \<open>
  The file system is a map from paths to contents. Only the calls the scraper makes are
  modelled: \<^verbatim>\<open>existsSync\<close>, \<^verbatim>\<open>readFileSync\<close>, \<^verbatim>\<open>writeFileSync\<close> (create or
  truncate, then write), \<^verbatim>\<open>renameSync\<close> (replace the target in one step) and the append
  of a write stream opened with flag \<^verbatim>\<open>a\<close>.
\<close>

type_synonym fs = "string \<rightharpoonup> string"

record AxiosError =
  response_status :: "nat option"
  code :: "string option"

datatype error =
    ENOENT string
  | SyntaxError string
  | TypeError
  | RequestFailed AxiosError

definition existsSync :: "fs \<Rightarrow> string \<Rightarrow> bool" where
  "existsSync fls path = (fls path \<noteq> None)"

definition readFileSync :: "fs \<Rightarrow> string \<Rightarrow> error + string" where
  "readFileSync fls path =
     (case fls path of None \<Rightarrow> Inl (ENOENT path) | Some d \<Rightarrow> Inr d)"

definition writeFileSync :: "fs \<Rightarrow> string \<Rightarrow> string \<Rightarrow> fs" where
  "writeFileSync fls path d = fls(path \<mapsto> d)"

definition renameSync :: "fs \<Rightarrow> string \<Rightarrow> string \<Rightarrow> error + fs" where
  "renameSync fls oldPath newPath =
     (case fls oldPath of
        None \<Rightarrow> Inl (ENOENT oldPath)
      | Some d \<Rightarrow> Inr ((fls(oldPath := None))(newPath \<mapsto> d)))"

definition appendFile :: "fs \<Rightarrow> string \<Rightarrow> string \<Rightarrow> fs" where
  "appendFile fls path d =
     fls(path \<mapsto> (case fls path of None \<Rightarrow> [] | Some old \<Rightarrow> old) @ d)"

subsection \<open>safeWriteFileSync\<close>

definition safeWriteFileSync :: "fs \<Rightarrow> string \<Rightarrow> string \<Rightarrow> error + fs" where
  "safeWriteFileSync fls filePath d =
     (let tempFile = filePath @ ''.tmp'';
          fls1 = writeFileSync fls tempFile d
      in renameSync fls1 tempFile filePath)"

text \<open>
  What a reader can find on disk while \<^verbatim>\<open>safeWriteFileSync\<close> runs, in order: the file
  system before the call; the temporary file created empty and then holding a growing
  prefix of the data, up to all of it; the file system after the rename. The process may
  stop after any of them.
\<close>

definition safeWriteFileSync_states :: "fs \<Rightarrow> string \<Rightarrow> string \<Rightarrow> fs list" where
  "safeWriteFileSync_states fls filePath d =
     (let tempFile = filePath @ ''.tmp'' in
      fls
      # map (\<lambda>k. writeFileSync fls tempFile (take k d)) [0..<Suc (length d)]
      @ (case renameSync (writeFileSync fls tempFile d) tempFile filePath of
           Inl e \<Rightarrow> [] | Inr fls2 \<Rightarrow> [fls2]))"

subsection \<open>ProgressHandler\<close>

text \<open>
  \<^verbatim>\<open>JSON.stringify({ lastScrapedPage: page })\<close> for an integer page. \<^verbatim>\<open>JSON.parse\<close>
  followed by \<^verbatim>\<open>.lastScrapedPage\<close> is modelled on the texts that \<^verbatim>\<open>JSON.stringify\<close>
  produces for this object; every other text is reported as a syntax error.
\<close>

definition JSON_stringify :: "int \<Rightarrow> string" where
  \<open>JSON_stringify page = ''{"lastScrapedPage":'' @ string_of_int page @ ''}''\<close>

definition JSON_parse :: "string \<Rightarrow> error + int" where
  \<open>JSON_parse t =
     (if prefix ''{"lastScrapedPage":'' t \<and> suffix ''}'' t
         \<and> length ''{"lastScrapedPage":'' + length ''}'' \<le> length t
      then (case parse_int (butlast (drop (length ''{"lastScrapedPage":'') t)) of
              None \<Rightarrow> Inl (SyntaxError t)
            | Some page \<Rightarrow> Inr page)
      else Inl (SyntaxError t))\<close>

definition loadProgress :: "fs \<Rightarrow> string \<Rightarrow> error + int" where
  "loadProgress fls progressFile =
     (if existsSync fls progressFile then
        (case readFileSync fls progressFile of
           Inl e \<Rightarrow> Inl e
         | Inr t \<Rightarrow> JSON_parse t)
      else Inr 1)"

definition saveProgress :: "fs \<Rightarrow> string \<Rightarrow> int \<Rightarrow> error + fs" where
  "saveProgress fls progressFile page =
     safeWriteFileSync fls progressFile (JSON_stringify page)"

section \<open>Fetching with retries\<close>

text \<open>
  What the network answers to one attempt: an HTTP response (status and body) or a
  failure below HTTP with its error code. The body is represented by the start tags,
  texts and end tags that the tokenizer of \<^verbatim>\<open>htmlparser2\<close> finds in it, in order, with
  tag and attribute names in lower case.
\<close>

datatype event =
    OpenTag string "(string \<times> string) list"
  | Text string
  | CloseTag string

datatype http_outcome =
    HttpResponse nat "event list"
  | NetworkFailure string

record response =
  status :: nat
  data :: "event list"

datatype fetch_result = Resolved response | Rejected AxiosError

text \<open>
  The scraper calls \<^verbatim>\<open>axios.get\<close> without a \<^verbatim>\<open>validateStatus\<close> option, so the
  client's default applies: a response resolves the request when its status is in
  200..299 and rejects it, with the status in \<^verbatim>\<open>error.response.status\<close>, otherwise.
\<close>

definition validateStatus :: "nat \<Rightarrow> bool" where
  "validateStatus st = (200 \<le> st \<and> st < 300)"

definition settle :: "http_outcome \<Rightarrow> fetch_result" where
  "settle out =
     (case out of
        HttpResponse st body \<Rightarrow>
          if validateStatus st then Resolved \<lparr>status = st, data = body\<rparr>
          else Rejected \<lparr>response_status = Some st, code = None\<rparr>
      | NetworkFailure c \<Rightarrow> Rejected \<lparr>response_status = None, code = Some c\<rparr>)"

subsection \<open>configureAxiosRetryInstance\<close>

definition retries :: nat where
  "retries = 3"

text \<open>Delay in milliseconds before retry number \<open>retryCount\<close>.\<close>

definition retryDelay :: "nat \<Rightarrow> AxiosError \<Rightarrow> nat" where
  "retryDelay retryCount err =
     (if response_status err = Some 429 then retryCount * 2000 else retryCount * 1000)"

definition retryCondition :: "AxiosError \<Rightarrow> bool" where
  "retryCondition err =
     (response_status err = Some 429
      \<or> code err = Some ''ECONNABORTED''
      \<or> (case response_status err of None \<Rightarrow> False | Some st \<Rightarrow> st \<in> set [500, 502, 503, 504]))"

text \<open>
  The retry interceptor: a rejected attempt is repeated while fewer than \<open>retries\<close>
  retries were made and \<open>retryCondition\<close> holds, after waiting \<open>retryDelay\<close> of the
  incremented retry count. The list holds the network's answers to the successive
  attempts; the result is the delays waited and how the request settled, or \<open>None\<close> when
  the list ends before the request settles.
\<close>

fun request :: "nat \<Rightarrow> http_outcome list \<Rightarrow> (nat list \<times> fetch_result) option" where
  "request retryCount [] = None"
| "request retryCount (out # rest) =
     (case settle out of
        Resolved r \<Rightarrow> Some ([], Resolved r)
      | Rejected err \<Rightarrow>
          if retryCount < retries \<and> retryCondition err then
            (case request (retryCount + 1) rest of
               None \<Rightarrow> None
             | Some (delays, res) \<Rightarrow> Some (retryDelay (retryCount + 1) err # delays, res))
          else Some ([], Rejected err))"

definition axios_get :: "http_outcome list \<Rightarrow> (nat list \<times> fetch_result) option" where
  "axios_get outs = request 0 outs"

section \<open>The scraper\<close>

subsection \<open>Configuration and state\<close>

text \<open>
  \<^verbatim>\<open>config.js\<close> is imported but not part of the sources, so the configuration is a
  parameter. \<^verbatim>\<open>sanitizeHtml\<close> is a library function and a parameter too.
\<close>

record config =
  csvHeaders :: "string list"
  viewUrlPath :: string
  viewUrlHeader :: string
  downloadUrlPath :: string
  downloadUrlHeader :: string
  baseUrl :: string
  sanitizeHtml :: "string \<Rightarrow> string"

text \<open>
  \<^verbatim>\<open>this.currentCell\<close> is \<^verbatim>\<open>undefined\<close> or a string; \<^verbatim>\<open>this.currentRow\<close> is
  \<^verbatim>\<open>undefined\<close> (\<open>None\<close>) until the first row opens and then an object whose keys keep
  their insertion order.
\<close>

datatype cell = Undefined | Str string

type_synonym row = "(string \<times> cell) list"

datatype log_entry =
    Info_Scraping_page string
  | Warn_Unexpected_response_status nat string
  | Error_scraping_page string error

text \<open>
  The fields of one \<^verbatim>\<open>WebScraper\<close> with its handlers (\<open>outputFile\<close>, \<open>header\<close> and
  \<open>records\<close> belong to the \<^verbatim>\<open>CsvHandler\<close> and its stringifier, \<open>progressFile\<close> to the
  \<^verbatim>\<open>ProgressHandler\<close>), together with the file system and the log it writes to.
\<close>

record state =
  url :: string
  outputFile :: string
  header :: bool
  records :: nat
  progressFile :: string
  isPaused :: bool
  lastScrapedPage :: int
  totalPages :: nat
  currentRow :: "row option"
  currentCell :: cell
  files :: fs
  log :: "log_entry list"

subsection \<open>CsvHandler\<close>

text \<open>
  One line of output: fields separated by commas and ended by a line feed; a field that
  contains a comma, a double quote or a line feed is quoted, with its quotes doubled.
\<close>

definition csv_field :: "string \<Rightarrow> string" where
  "csv_field f =
     (if list_ex (\<lambda>c. c = CHR '','' \<or> c = CHR 0x22 \<or> c = CHR 0x0A) f
      then [CHR 0x22] @ concat (map (\<lambda>c. if c = CHR 0x22 then [c, c] else [c]) f) @ [CHR 0x22]
      else f)"

fun join_fields :: "string list \<Rightarrow> string" where
  "join_fields [] = []"
| "join_fields [f] = f"
| "join_fields (f # g # fs) = f @ CHR '','' # join_fields (g # fs)"

definition csv_line :: "string list \<Rightarrow> string" where
  "csv_line vals = join_fields (map csv_field vals) @ [CHR 0x0A]"

text \<open>
  \<^verbatim>\<open>name in this.currentRow\<close> is true for the record's own keys and for the property
  names that every object inherits from \<^verbatim>\<open>Object.prototype\<close>.
\<close>

definition Object_prototype_names :: "string list" where
  "Object_prototype_names =
     [''constructor'', ''__defineGetter__'', ''__defineSetter__'', ''hasOwnProperty'',
      ''__lookupGetter__'', ''__lookupSetter__'', ''isPrototypeOf'', ''propertyIsEnumerable'',
      ''toString'', ''valueOf'', ''__proto__'', ''toLocaleString'']"

definition js_in :: "string \<Rightarrow> row \<Rightarrow> bool" where
  "js_in k r = (map_of r k \<noteq> None \<or> k \<in> set Object_prototype_names)"

text \<open>The values of a record in column order; a missing or undefined value is empty.\<close>

definition row_values :: "config \<Rightarrow> row \<Rightarrow> string list" where
  "row_values cfg r =
     map (\<lambda>c. case map_of r c of Some (Str t) \<Rightarrow> t | _ \<Rightarrow> []) (csvHeaders cfg)"

text \<open>
  The write stream is created first, but it opens (and so creates) its file only after
  the constructor's synchronous code has run, so \<^verbatim>\<open>existsSync\<close> in the next statement
  still sees the file system as it was before the stream existed. The model therefore
  evaluates \<open>header\<close> on the old file system and creates the file afterwards.
\<close>

definition initializeCsvStream :: "state \<Rightarrow> state" where
  "initializeCsvStream s =
     s\<lparr>header := \<not> existsSync (files s) (outputFile s),
       records := 0,
       files := appendFile (files s) (outputFile s) []\<rparr>"

text \<open>
  The stringifier writes the header line, when \<open>header\<close> is set, in front of the first
  record it is given, or when it is ended without having been given any.
\<close>

definition writeRow :: "config \<Rightarrow> row \<Rightarrow> state \<Rightarrow> state" where
  "writeRow cfg r s =
     (let head = (if records s = 0 \<and> header s then csv_line (csvHeaders cfg) else [])
      in s\<lparr>files := appendFile (files s) (outputFile s) (head @ csv_line (row_values cfg r)),
           records := Suc (records s)\<rparr>)"

definition closeCsvStream :: "config \<Rightarrow> state \<Rightarrow> state" where
  "closeCsvStream cfg s =
     (if records s = 0 \<and> header s
      then s\<lparr>files := appendFile (files s) (outputFile s) (csv_line (csvHeaders cfg))\<rparr>
      else s)"

subsection \<open>BaseScraper: construction\<close>

text \<open>
  \<^verbatim>\<open>new WebScraper(url, outputFile)\<close>: the \<^verbatim>\<open>CsvHandler\<close> constructor initialises the
  stream, the progress file is \<^verbatim>\<open>outputFile.progress\<close>, and the \<^verbatim>\<open>BaseScraper\<close>
  constructor sets \<open>isPaused\<close>, \<open>lastScrapedPage\<close> and \<open>totalPages\<close>. It assigns neither
  \<open>currentRow\<close> nor \<open>currentCell\<close>, which therefore start undefined.
\<close>

definition WebScraper :: "string \<Rightarrow> string \<Rightarrow> fs \<Rightarrow> state" where
  "WebScraper u out fls =
     initializeCsvStream
       \<lparr>url = u, outputFile = out, header = False, records = 0,
        progressFile = out @ ''.progress'', isPaused = False,
        lastScrapedPage = 1, totalPages = 1,
        currentRow = None, currentCell = Undefined,
        files = fls, log = []\<rparr>"

subsection \<open>BaseScraper.getTotalPages\<close>

text \<open>
  The leftmost match of \<^verbatim>\<open>/page=(\d+)/\<close>: its group, the longest run of digits after
  the first \<^verbatim>\<open>page=\<close> that is followed by a digit.
\<close>

fun match_page :: "string \<Rightarrow> string option" where
  "match_page [] = None"
| "match_page (c # cs) =
     (if prefix ''page='' (c # cs) \<and> takeWhile is_digit (drop 5 (c # cs)) \<noteq> []
      then Some (takeWhile is_digit (drop 5 (c # cs)))
      else match_page cs)"

definition attr :: "(string \<times> string) list \<Rightarrow> string \<Rightarrow> string" where
  "attr attributes k = (case map_of attributes k of None \<Rightarrow> [] | Some v \<Rightarrow> v)"

definition total_onopentag :: "string \<Rightarrow> (string \<times> string) list \<Rightarrow> state \<Rightarrow> state" where
  "total_onopentag name attributes s =
     (if name = ''a'' \<and> truthy (map_of attributes ''href'')
         \<and> str_includes (attr attributes ''href'') ''page=''
      then (case match_page (attr attributes ''href'') of
              None \<Rightarrow> s
            | Some ds \<Rightarrow>
                (let pageNumber = nat_of_digits ds
                 in if pageNumber \<noteq> 0 \<and> pageNumber > totalPages s
                    then s\<lparr>totalPages := pageNumber\<rparr> else s))
      else s)"

text \<open>
  This parser has only the \<open>onopentag\<close> handler, which is called once for every start
  tag; the elements that a stray \<^verbatim>\<open></p>\<close> or \<^verbatim>\<open></br>\<close> opens are never anchors.
\<close>

fun total_events :: "event list \<Rightarrow> state \<Rightarrow> state" where
  "total_events [] s = s"
| "total_events (OpenTag name attributes # evs) s =
     total_events evs (total_onopentag name attributes s)"
| "total_events (ev # evs) s = total_events evs s"

definition getTotalPages :: "fetch_result \<Rightarrow> state \<Rightarrow> error + state" where
  "getTotalPages seed s =
     (case seed of
        Rejected err \<Rightarrow> Inl (RequestFailed err)
      | Resolved r \<Rightarrow> Inr (total_events (data r) s))"

subsection \<open>BaseScraper.parsePage\<close>

text \<open>
  \<^verbatim>\<open>this.currentRow[k] = v\<close>: a type error while \<open>currentRow\<close> is undefined; otherwise an
  existing key keeps its place and a new key goes last.
\<close>

definition set_column :: "string \<Rightarrow> cell \<Rightarrow> state \<Rightarrow> error + state" where
  "set_column k v s =
     (case currentRow s of
        None \<Rightarrow> Inl TypeError
      | Some r \<Rightarrow> Inr (s\<lparr>currentRow := Some (AList.update k v r)\<rparr>))"

definition onopentag :: "config \<Rightarrow> string \<Rightarrow> (string \<times> string) list \<Rightarrow> state \<Rightarrow> error + state" where
  "onopentag cfg name attributes s =
     (let s1 = (if name = ''tr''
                   \<and> (\<not> truthy (map_of attributes ''class'')
                        \<or> \<not> str_includes (attr attributes ''class'') ''table-striped'')
                then s\<lparr>currentRow := Some []\<rparr> else s);
          s2 = (if name = ''td'' then s1\<lparr>currentCell := Str []\<rparr> else s1)
      in if name = ''a'' \<and> truthy (map_of attributes ''href'') then
           (if startsWith (attr attributes ''href'') (viewUrlPath cfg) then
              set_column (viewUrlHeader cfg) (Str (baseUrl cfg @ attr attributes ''href'')) s2
            else if startsWith (attr attributes ''href'') (downloadUrlPath cfg) then
              set_column (downloadUrlHeader cfg) (Str (baseUrl cfg @ attr attributes ''href'')) s2
            else Inr s2)
         else Inr s2)"

definition ontext :: "config \<Rightarrow> string \<Rightarrow> state \<Rightarrow> state" where
  "ontext cfg t s =
     (case currentCell s of
        Undefined \<Rightarrow> s
      | Str acc \<Rightarrow> s\<lparr>currentCell := Str (acc @ sanitizeHtml cfg (trim t))\<rparr>)"

text \<open>
  \<^verbatim>\<open>config.csvHeaders.find(cellName => !(cellName in this.currentRow))\<close>: the callback
  runs (and fails on an undefined \<open>currentRow\<close>) only if there is a column to test.
\<close>

definition find_column :: "config \<Rightarrow> state \<Rightarrow> error + string option" where
  "find_column cfg s =
     (case currentRow s of
        None \<Rightarrow> if csvHeaders cfg = [] then Inr None else Inl TypeError
      | Some r \<Rightarrow> Inr (find (\<lambda>cellName. \<not> js_in cellName r) (csvHeaders cfg)))"

definition close_td :: "config \<Rightarrow> state \<Rightarrow> error + state" where
  "close_td cfg s =
     (case find_column cfg s of
        Inl e \<Rightarrow> Inl e
      | Inr None \<Rightarrow> Inr (s\<lparr>currentCell := Undefined\<rparr>)
      | Inr (Some currentCellName) \<Rightarrow>
          if currentCellName \<noteq> [] then
            (case set_column currentCellName (currentCell s) s of
               Inl e \<Rightarrow> Inl e
             | Inr s1 \<Rightarrow> Inr (s1\<lparr>currentCell := Undefined\<rparr>))
          else Inr (s\<lparr>currentCell := Undefined\<rparr>))"

definition close_tr :: "config \<Rightarrow> state \<Rightarrow> error + state" where
  "close_tr cfg s =
     (case currentRow s of
        None \<Rightarrow> Inl TypeError
      | Some r \<Rightarrow>
          if length r > 0 then Inr ((writeRow cfg r s)\<lparr>currentRow := Some []\<rparr>) else Inr s)"

definition onclosetag :: "config \<Rightarrow> string \<Rightarrow> state \<Rightarrow> error + state" where
  "onclosetag cfg name s =
     (case (if name = ''td'' then close_td cfg s else Inr s) of
        Inl e \<Rightarrow> Inl e
      | Inr s1 \<Rightarrow> if name = ''tr'' then close_tr cfg s1 else Inr s1)"

subsection \<open>The parser that drives the handlers\<close>

text \<open>
  Between the markup and the handlers stands the parser of \<^verbatim>\<open>htmlparser2\<close>. It keeps
  the stack of open elements, innermost first, and calls the handlers as follows.
  A start tag first closes the open elements it implies the end of (a \<^verbatim>\<open>tr\<close> ends an
  open \<^verbatim>\<open>tr\<close>, \<^verbatim>\<open>th\<close> or \<^verbatim>\<open>td\<close>, and so on), then opens its element; a void element
  is closed at once and never enters the stack. An end tag for an open element closes
  the elements down to and including it; an end tag for an element that is not open is
  ignored, except that \<^verbatim>\<open></p>\<close> and \<^verbatim>\<open></br>\<close> open and close an element of their own.
  \<^verbatim>\<open>parser.end()\<close> closes every element that is still open, innermost first.
\<close>

definition openImpliesClose :: "string \<Rightarrow> string list" where
  "openImpliesClose name =
     (if name = ''tr'' then [''tr'', ''th'', ''td'']
      else if name = ''th'' then [''th'']
      else if name = ''td'' then [''thead'', ''th'', ''td'']
      else if name = ''body'' then [''head'', ''link'', ''script'']
      else if name = ''li'' then [''li'']
      else if name \<in> set [''select'', ''input'', ''output'', ''button'', ''datalist'', ''textarea'']
        then [''input'', ''option'', ''optgroup'', ''select'', ''button'', ''datalist'', ''textarea'']
      else if name = ''option'' then [''option'']
      else if name = ''optgroup'' then [''optgroup'', ''option'']
      else if name \<in> set [''dd'', ''dt''] then [''dd'', ''dt'']
      else if name \<in> set [''rt'', ''rp''] then [''rt'', ''rp'']
      else if name \<in> set [''tbody'', ''tfoot''] then [''thead'', ''tbody'']
      else if name \<in> set [''p'', ''h1'', ''h2'', ''h3'', ''h4'', ''h5'', ''h6'', ''address'',
                            ''article'', ''aside'', ''blockquote'', ''details'', ''div'', ''dl'',
                            ''fieldset'', ''figcaption'', ''figure'', ''footer'', ''form'',
                            ''header'', ''hr'', ''main'', ''nav'', ''ol'', ''pre'', ''section'',
                            ''table'', ''ul'']
        then [''p'']
      else [])"

definition voidElements :: "string list" where
  "voidElements =
     [''area'', ''base'', ''basefont'', ''br'', ''col'', ''command'', ''embed'', ''frame'',
      ''hr'', ''img'', ''input'', ''isindex'', ''keygen'', ''link'', ''meta'', ''param'',
      ''source'', ''track'', ''wbr'']"

text \<open>
  The handler \<open>onclosetag\<close> called for each of the names in turn. A handler that throws
  ends the parse: what the handlers did before stays done, so the error comes with the
  state reached.
\<close>

fun closetags :: "config \<Rightarrow> string list \<Rightarrow> state \<Rightarrow> (error \<times> state) + state" where
  "closetags cfg [] s = Inr s"
| "closetags cfg (name # names) s =
     (case onclosetag cfg name s of
        Inl e \<Rightarrow> Inl (e, s)
      | Inr s1 \<Rightarrow> closetags cfg names s1)"

definition parser_opentag ::
  "config \<Rightarrow> string \<Rightarrow> (string \<times> string) list \<Rightarrow> string list \<Rightarrow> state
    \<Rightarrow> (error \<times> state) + (string list \<times> state)" where
  "parser_opentag cfg name attributes stack s =
     (let implied = takeWhile (\<lambda>el. el \<in> set (openImpliesClose name)) stack;
          stack1 = dropWhile (\<lambda>el. el \<in> set (openImpliesClose name)) stack
      in case closetags cfg implied s of
           Inl e \<Rightarrow> Inl e
         | Inr s1 \<Rightarrow>
             (case onopentag cfg name attributes s1 of
                Inl e \<Rightarrow> Inl (e, s1)
              | Inr s2 \<Rightarrow>
                  if name \<in> set voidElements then
                    (case onclosetag cfg name s2 of
                       Inl e \<Rightarrow> Inl (e, s2)
                     | Inr s3 \<Rightarrow> Inr (stack1, s3))
                  else Inr (name # stack1, s2)))"

definition parser_closetag ::
  "config \<Rightarrow> string \<Rightarrow> string list \<Rightarrow> state \<Rightarrow> (error \<times> state) + (string list \<times> state)" where
  "parser_closetag cfg name stack s =
     (if name \<in> set stack \<and> name \<notin> set voidElements then
        (case closetags cfg (takeWhile (\<lambda>el. el \<noteq> name) stack @ [name]) s of
           Inl e \<Rightarrow> Inl e
         | Inr s1 \<Rightarrow> Inr (tl (dropWhile (\<lambda>el. el \<noteq> name) stack), s1))
      else if name = ''p'' \<or> name = ''br'' then
        (case onopentag cfg name [] s of
           Inl e \<Rightarrow> Inl (e, s)
         | Inr s1 \<Rightarrow>
             (case onclosetag cfg name s1 of
                Inl e \<Rightarrow> Inl (e, s1)
              | Inr s2 \<Rightarrow> Inr (stack, s2)))
      else Inr (stack, s))"

text \<open>\<^verbatim>\<open>parser.write(html)\<close>, from a given stack of open elements.\<close>

fun parser_write ::
  "config \<Rightarrow> event list \<Rightarrow> string list \<Rightarrow> state \<Rightarrow> (error \<times> state) + (string list \<times> state)" where
  "parser_write cfg [] stack s = Inr (stack, s)"
| "parser_write cfg (ev # evs) stack s =
     (case (case ev of
              OpenTag name attributes \<Rightarrow> parser_opentag cfg name attributes stack s
            | Text t \<Rightarrow> Inr (stack, ontext cfg t s)
            | CloseTag name \<Rightarrow> parser_closetag cfg name stack s) of
        Inl e \<Rightarrow> Inl e
      | Inr (stack1, s1) \<Rightarrow> parser_write cfg evs stack1 s1)"

definition parser_end :: "config \<Rightarrow> string list \<Rightarrow> state \<Rightarrow> (error \<times> state) + state" where
  "parser_end cfg stack s = closetags cfg stack s"

text \<open>
  \<open>parsePage\<close> makes a new parser, writes the page to it and ends it. It assigns nothing
  itself: the state changes only in the handlers. The result is the state left, or the
  error a handler threw together with the state reached.
\<close>

definition parsePage :: "config \<Rightarrow> event list \<Rightarrow> state \<Rightarrow> (error \<times> state) + state" where
  "parsePage cfg evs s =
     (case parser_write cfg evs [] s of
        Inl e \<Rightarrow> Inl e
      | Inr (stack, s1) \<Rightarrow> parser_end cfg stack s1)"

subsection \<open>BaseScraper.scrapePage and the page tasks\<close>

text \<open>
  \<open>scrapePage\<close> receives how \<^verbatim>\<open>axios.get\<close> settled for the page. It returns \<open>Inr True\<close>
  or \<open>Inr False\<close>, or \<open>Inl\<close> the error it rethrows, and the state it leaves.
\<close>

definition scrapePage :: "config \<Rightarrow> string \<Rightarrow> fetch_result \<Rightarrow> state \<Rightarrow> (error + bool) \<times> state" where
  "scrapePage cfg pageUrl res s =
     (let s0 = s\<lparr>log := log s @ [Info_Scraping_page pageUrl]\<rparr> in
      case res of
        Rejected err \<Rightarrow>
          (Inl (RequestFailed err),
           s0\<lparr>log := log s0 @ [Error_scraping_page pageUrl (RequestFailed err)]\<rparr>)
      | Resolved r \<Rightarrow>
          if status r = 200 then
            (case parsePage cfg (data r) s0 of
               Inl (e, s1) \<Rightarrow> (Inl e, s1\<lparr>log := log s1 @ [Error_scraping_page pageUrl e]\<rparr>)
             | Inr s1 \<Rightarrow> (Inr True, s1))
          else
            (Inr False,
             s0\<lparr>log := log s0 @ [Warn_Unexpected_response_status (status r) pageUrl]\<rparr>))"

text \<open>
  The task added to the queue for one page:
  \<^verbatim>\<open>if (await this.scrapePage(pageUrl)) { this.progressHandler.saveProgress(this.lastScrapedPage++); }\<close>
  The counter is incremented before \<open>saveProgress\<close> is entered with its old value. The
  result is the error the task's promise is rejected with, if any.
\<close>

definition page_task :: "config \<Rightarrow> string \<Rightarrow> fetch_result \<Rightarrow> state \<Rightarrow> error option \<times> state" where
  "page_task cfg pageUrl res s =
     (case scrapePage cfg pageUrl res s of
        (Inl e, s1) \<Rightarrow> (Some e, s1)
      | (Inr ok, s1) \<Rightarrow>
          if ok then
            (let page = lastScrapedPage s1;
                 s2 = s1\<lparr>lastScrapedPage := page + 1\<rparr>
             in case saveProgress (files s2) (progressFile s2) page of
                  Inl e \<Rightarrow> (Some e, s2)
                | Inr fls \<Rightarrow> (None, s2\<lparr>files := fls\<rparr>))
          else (None, s1))"

text \<open>
  The tasks' fetches overlap, but each task's code after its fetch runs without
  interruption on the single thread, so a run of the queue is the sequence of page tasks
  in the order in which their fetches settle. Each entry gives the task's page URL and how
  its fetch settled. A rejected task does not stop the queue; the errors are collected.
\<close>

fun run_tasks :: "config \<Rightarrow> (string \<times> fetch_result) list \<Rightarrow> state \<Rightarrow> error list \<times> state" where
  "run_tasks cfg [] s = ([], s)"
| "run_tasks cfg ((pageUrl, res) # rest) s =
     (case page_task cfg pageUrl res s of
        (None, s1) \<Rightarrow> run_tasks cfg rest s1
      | (Some e, s1) \<Rightarrow> (case run_tasks cfg rest s1 of (es, s2) \<Rightarrow> (e # es, s2)))"

subsection \<open>BaseScraper.scrapePages: scheduling\<close>

text \<open>\<^verbatim>\<open>`${this.url}?page=${i + 1}`\<close> for the page with number \<open>n = i + 1\<close>.\<close>

definition page_url :: "string \<Rightarrow> nat \<Rightarrow> string" where
  "page_url u n = u @ ''?page='' @ string_of_nat n"

definition pageUrls :: "state \<Rightarrow> string list" where
  "pageUrls s = map (\<lambda>i. page_url (url s) (i + 1)) [0..<totalPages s]"

text \<open>
  \<^verbatim>\<open>xs.slice(start)\<close>: a negative start counts from the end of the array, and the start
  is clamped to the array.
\<close>

definition slice :: "'a list \<Rightarrow> int \<Rightarrow> 'a list" where
  "slice xs start =
     (let len = int (length xs);
          k = (if start < 0 then max (len + start) 0 else min start len)
      in drop (nat k) xs)"

text \<open>The page URLs for which the loop adds a task to the queue, in order.\<close>

definition scheduled :: "state \<Rightarrow> string list" where
  "scheduled s = slice (pageUrls s) (lastScrapedPage s - 1)"

subsection \<open>BaseScraper.scrape\<close>

text \<open>
  What \<open>scrape\<close> does before the first task is added: it loads the progress into
  \<open>lastScrapedPage\<close>, and \<open>scrapePages\<close> discovers the page count from \<open>seed\<close>, how the
  fetch of the unpaginated URL settled. An error of either ends the run.
\<close>

definition prepare :: "fetch_result \<Rightarrow> state \<Rightarrow> error + state" where
  "prepare seed s =
     (case loadProgress (files s) (progressFile s) of
        Inl e \<Rightarrow> Inl e
      | Inr page \<Rightarrow> getTotalPages seed (s\<lparr>lastScrapedPage := page\<rparr>))"

text \<open>
  \<open>fetch\<close> is how the fetch of each page URL settles and \<open>order\<close> the order in which the
  scheduled tasks complete. When the queue is idle the stream is closed.
\<close>

definition scrape ::
  "config \<Rightarrow> fetch_result \<Rightarrow> (string \<Rightarrow> fetch_result) \<Rightarrow> (string list \<Rightarrow> string list)
    \<Rightarrow> state \<Rightarrow> error + (error list \<times> state)" where
  "scrape cfg seed fetch order s =
     (case prepare seed s of
        Inl e \<Rightarrow> Inl e
      | Inr s1 \<Rightarrow>
          (case run_tasks cfg (map (\<lambda>u. (u, fetch u)) (order (scheduled s1))) s1 of
             (es, s2) \<Rightarrow> Inr (es, closeCsvStream cfg s2)))"

section \<open>Notions of the specification\<close>

text \<open>
  The failures the specification classifies as retryable: HTTP 429, HTTP 500, 502, 503
  and 504, and an aborted or timed-out connection (error code \<^verbatim>\<open>ECONNABORTED\<close>).
\<close>

definition retryable_failure :: "http_outcome \<Rightarrow> bool" where
  "retryable_failure out =
     (case out of
        HttpResponse st body \<Rightarrow> st = 429 \<or> st = 500 \<or> st = 502 \<or> st = 503 \<or> st = 504
      | NetworkFailure c \<Rightarrow> c = ''ECONNABORTED'')"

definition is_429 :: "http_outcome \<Rightarrow> bool" where
  "is_429 out = (case out of HttpResponse st body \<Rightarrow> st = 429 | NetworkFailure c \<Rightarrow> False)"

text \<open>
  The frontier of the specification: the length of the longest prefix 1, 2, ... of page
  numbers that all occur among the completed pages.
\<close>

definition frontier_of :: "nat list \<Rightarrow> nat" where
  "frontier_of completed =
     length (takeWhile (\<lambda>n. n \<in> set completed) [1..<Suc (length completed)])"

text \<open>How many of the page tasks of a run complete successfully.\<close>

fun successes :: "config \<Rightarrow> (string \<times> fetch_result) list \<Rightarrow> state \<Rightarrow> nat" where
  "successes cfg [] s = 0"
| "successes cfg ((pageUrl, res) # rest) s =
     (if fst (scrapePage cfg pageUrl res s) = Inr True then 1 else 0)
     + successes cfg rest (snd (page_task cfg pageUrl res s))"

text \<open>The value a reader finds persisted: what \<open>loadProgress\<close> returns.\<close>

definition persisted :: "state \<Rightarrow> error + int" where
  "persisted s = loadProgress (files s) (progressFile s)"

text \<open>The content of a file, empty when the file does not exist.\<close>

definition content :: "fs \<Rightarrow> string \<Rightarrow> string" where
  "content fls path = (case fls path of None \<Rightarrow> [] | Some old \<Rightarrow> old)"

text \<open>One run's use of the output target: open it, write the records, close it.\<close>

definition write_rows :: "config \<Rightarrow> row list \<Rightarrow> state \<Rightarrow> state" where
  "write_rows cfg rs s = foldl (\<lambda>s1 r. writeRow cfg r s1) s rs"

definition sink_run :: "config \<Rightarrow> string \<Rightarrow> string \<Rightarrow> fs \<Rightarrow> row list \<Rightarrow> state" where
  "sink_run cfg u out fls rs = closeCsvStream cfg (write_rows cfg rs (WebScraper u out fls))"

definition rows_text :: "config \<Rightarrow> row list \<Rightarrow> string" where
  "rows_text cfg rs = concat (map (\<lambda>r. csv_line (row_values cfg r)) rs)"

text \<open>
  What no handler touches: a state differs from another at most in the extractor's
  fields, the stringifier's record count and the content of the output file.
\<close>

definition same_progress :: "string \<Rightarrow> state \<Rightarrow> state \<Rightarrow> bool" where
  "same_progress p s s1 =
     (progressFile s1 = progressFile s
      \<and> outputFile s1 = outputFile s
      \<and> lastScrapedPage s1 = lastScrapedPage s
      \<and> log s1 = log s
      \<and> (p = outputFile s \<or> files s1 p = files s p))"

text \<open>The state a parse leaves, with or without an error.\<close>

definition state_left :: "(error \<times> state) + state \<Rightarrow> state" where
  "state_left res = (case res of Inl (e, s1) \<Rightarrow> s1 | Inr s1 \<Rightarrow> s1)"

definition state_reached :: "(error \<times> state) + (string list \<times> state) \<Rightarrow> state" where
  "state_reached res = (case res of Inl (e, s1) \<Rightarrow> s1 | Inr (stack, s1) \<Rightarrow> s1)"

section \<open>Example data\<close>

text \<open>
  A configuration with the schema \<^verbatim>\<open>["name", "age"]\<close>, the prefixes \<^verbatim>\<open>/view/\<close> and
  \<^verbatim>\<open>/download/\<close> and the base \<^verbatim>\<open>https://ex.com\<close>; \<open>sanitizeHtml\<close> leaves the plain
  words of the examples as they are.
\<close>

definition example_config :: config where
  "example_config =
     \<lparr>csvHeaders = [''name'', ''age''],
      viewUrlPath = ''/view/'', viewUrlHeader = ''view'',
      downloadUrlPath = ''/download/'', downloadUrlHeader = ''download'',
      baseUrl = ''https://ex.com'',
      sanitizeHtml = (\<lambda>t. t)\<rparr>"

text \<open>A scraper for \<^verbatim>\<open>u\<close> writing to \<^verbatim>\<open>o\<close>, on an empty file system.\<close>

definition fresh :: state where
  "fresh = WebScraper ''u'' ''o'' Map.empty"

text \<open>A page with one row holding one cell, and a seed page that links to page 3.\<close>

definition page_ok :: fetch_result where
  "page_ok =
     Resolved \<lparr>status = 200,
               data = [OpenTag ''tr'' [], OpenTag ''td'' [], Text ''A'', CloseTag ''td'',
                       CloseTag ''tr'']\<rparr>"

definition seed3 :: fetch_result where
  "seed3 = Resolved \<lparr>status = 200, data = [OpenTag ''a'' [(''href'', ''/list?page=3'')]]\<rparr>"

definition not_found :: fetch_result where
  "not_found = Rejected \<lparr>response_status = Some 404, code = None\<rparr>"

text \<open>The same scraper started where the progress file holds page 2.\<close>

definition resumed_at_2 :: state where
  "resumed_at_2 = WebScraper ''u'' ''o'' [''o.progress'' \<mapsto> JSON_stringify 2]"





text \<open>The same scraper started where the progress file holds 0.\<close>

definition resumed_at_0 :: state where
  "resumed_at_0 = WebScraper ''u'' ''o'' [''o.progress'' \<mapsto> JSON_stringify 0]"






section \<open>Properties\<close>

subsection \<open>Decimal numerals and the progress text\<close>

lemma of_char_digit_char: "d < 10 \<Longrightarrow> (of_char (digit_char d) :: nat) = 48 + d"
  by (simp add: digit_char_def)

lemma is_digit_digit_char: "d < 10 \<Longrightarrow> is_digit (digit_char d)"
  by (simp add: is_digit_def of_char_digit_char)

lemma digit_val_digit_char: "d < 10 \<Longrightarrow> digit_val (digit_char d) = d"
  by (simp add: digit_val_def of_char_digit_char)

lemma string_of_nat_nonempty: "string_of_nat n \<noteq> []"
  by (subst string_of_nat.simps) simp

lemma string_of_nat_digits: "list_all is_digit (string_of_nat n)"
proof (induction n rule: string_of_nat.induct)
  case (1 n)
  show ?case
  proof (cases "n < 10")
    case True
    then show ?thesis
      by (subst string_of_nat.simps) (simp add: is_digit_digit_char)
  next
    case False
    with 1 show ?thesis
      by (subst string_of_nat.simps) (simp add: is_digit_digit_char)
  qed
qed

lemma nat_of_digits_snoc: "nat_of_digits (ds @ [c]) = 10 * nat_of_digits ds + digit_val c"
  by (simp add: nat_of_digits_def)

lemma nat_of_digits_string_of_nat: "nat_of_digits (string_of_nat n) = n"
proof (induction n rule: string_of_nat.induct)
  case (1 n)
  show ?case
  proof (cases "n < 10")
    case True
    then show ?thesis
      by (subst string_of_nat.simps) (simp add: nat_of_digits_def digit_val_digit_char)
  next
    case False
    with 1 show ?thesis
      by (subst string_of_nat.simps) (simp add: nat_of_digits_snoc digit_val_digit_char)
  qed
qed

lemma string_of_nat_inj: "string_of_nat m = string_of_nat n \<Longrightarrow> m = n"
  by (metis nat_of_digits_string_of_nat)

lemma is_digit_not_minus: "is_digit c \<Longrightarrow> c \<noteq> CHR ''-''"
  by (auto simp: is_digit_def)

lemma parse_int_string_of_int: "parse_int (string_of_int i) = Some i"
proof (cases "i < 0")
  case True
  then show ?thesis
    by (simp add: parse_int_def string_of_int_def string_of_nat_nonempty
        string_of_nat_digits nat_of_digits_string_of_nat)
next
  case False
  obtain c cs where cs: "string_of_nat (nat i) = c # cs"
    using string_of_nat_nonempty [of "nat i"] by (cases "string_of_nat (nat i)") auto
  have all: "list_all is_digit (c # cs)"
    using string_of_nat_digits [of "nat i"] cs by simp
  then have "c \<noteq> CHR ''-''"
    by (simp add: is_digit_not_minus)
  moreover have "nat_of_digits (c # cs) = nat i"
    using nat_of_digits_string_of_nat [of "nat i"] cs by simp
  ultimately show ?thesis
    using False all cs by (simp add: parse_int_def string_of_int_def)
qed

lemma JSON_roundtrip: "JSON_parse (JSON_stringify page) = Inr page"
  by (simp add: JSON_parse_def JSON_stringify_def parse_int_string_of_int suffix_def)

subsection \<open>Retrying\<close>

lemma retryCondition_settle:
  "settle out = Rejected err \<Longrightarrow> retryCondition err = retryable_failure out"
  by (cases out)
     (auto simp: settle_def retryCondition_def retryable_failure_def validateStatus_def
           split: if_splits)

lemma retryDelay_settle:
  "settle out = Rejected err \<Longrightarrow>
     retryDelay n err = n * (if is_429 out then 2000 else 1000)"
  by (cases out)
     (auto simp: settle_def retryDelay_def is_429_def validateStatus_def split: if_splits)

lemma request_policy:
  "retries < k + length outs \<Longrightarrow> k \<le> retries \<Longrightarrow>
     \<exists>delays res. request k outs = Some (delays, res)
       \<and> k + length delays \<le> retries
       \<and> length delays < length outs
       \<and> (\<forall>n < length delays.
             retryable_failure (outs ! n)
             \<and> delays ! n = (k + n + 1) * (if is_429 (outs ! n) then 2000 else 1000))
       \<and> settle (outs ! length delays) = res
       \<and> (\<forall>err. res = Rejected err \<longrightarrow> k + length delays < retries
             \<longrightarrow> \<not> retryable_failure (outs ! length delays))"
proof (induction outs arbitrary: k)
  case Nil
  then show ?case by simp
next
  case (Cons out rest)
  show ?case
  proof (cases "settle out")
    case (Resolved r)
    then show ?thesis using Cons.prems by simp
  next
    case (Rejected err)
    show ?thesis
    proof (cases "k < retries \<and> retryCondition err")
      case False
      then have "request k (out # rest) = Some ([], Rejected err)"
        using Rejected by auto
      moreover have "k < retries \<longrightarrow> \<not> retryable_failure out"
        using False retryCondition_settle [OF Rejected] by simp
      ultimately show ?thesis using Rejected Cons.prems by simp
    next
      case True
      then have k: "k < retries" and rc: "retryable_failure out"
        using retryCondition_settle [OF Rejected] by simp_all
      have "\<exists>delays res. request (k + 1) rest = Some (delays, res)
         \<and> k + 1 + length delays \<le> retries
         \<and> length delays < length rest
         \<and> (\<forall>n < length delays.
               retryable_failure (rest ! n)
               \<and> delays ! n = (k + 1 + n + 1) * (if is_429 (rest ! n) then 2000 else 1000))
         \<and> settle (rest ! length delays) = res
         \<and> (\<forall>err. res = Rejected err \<longrightarrow> k + 1 + length delays < retries
               \<longrightarrow> \<not> retryable_failure (rest ! length delays))"
        using Cons.IH [of "k + 1"] Cons.prems k by simp
      then obtain delays res where
        req: "request (k + 1) rest = Some (delays, res)"
        and len: "k + 1 + length delays \<le> retries" "length delays < length rest"
        and each: "\<forall>n < length delays.
               retryable_failure (rest ! n)
               \<and> delays ! n = (k + 1 + n + 1) * (if is_429 (rest ! n) then 2000 else 1000)"
        and fin: "settle (rest ! length delays) = res"
        and stop: "\<forall>err. res = Rejected err \<longrightarrow> k + 1 + length delays < retries
               \<longrightarrow> \<not> retryable_failure (rest ! length delays)"
        by blast
      let ?ds = "retryDelay (k + 1) err # delays"
      have r: "request k (out # rest) = Some (?ds, res)"
        using Rejected True req by simp
      have e: "\<forall>n < length ?ds.
             retryable_failure ((out # rest) ! n)
             \<and> ?ds ! n = (k + n + 1) * (if is_429 ((out # rest) ! n) then 2000 else 1000)"
      proof (intro allI impI)
        fix n assume n: "n < length ?ds"
        show "retryable_failure ((out # rest) ! n)
             \<and> ?ds ! n = (k + n + 1) * (if is_429 ((out # rest) ! n) then 2000 else 1000)"
        proof (cases n)
          case 0
          then show ?thesis using rc retryDelay_settle [OF Rejected, of "k + 1"] by simp
        next
          case (Suc m)
          then have "m < length delays" using n by simp
          with each Suc show ?thesis by simp
        qed
      qed
      show ?thesis
        using r e len fin stop by auto
    qed
  qed
qed


text \<open>
  C4. A failed attempt is retried exactly when it is a retryable failure (HTTP 429, HTTP
  500, 502, 503 or 504, or an aborted or timed-out connection) and fewer than three
  retries were made, so a request makes at most four attempts; the delay before retry
  number n is n times 2000 milliseconds after HTTP 429 and n times 1000 milliseconds after
  any other retryable failure.
\<close>

theorem retry_policy:
  assumes "4 \<le> length outs"
  shows "\<exists>delays res. axios_get outs = Some (delays, res)
       \<and> length delays \<le> 3
       \<and> (\<forall>n < length delays.
             retryable_failure (outs ! n)
             \<and> delays ! n = (n + 1) * (if is_429 (outs ! n) then 2000 else 1000))
       \<and> settle (outs ! length delays) = res
       \<and> (\<forall>err. res = Rejected err \<longrightarrow> length delays < 3
             \<longrightarrow> \<not> retryable_failure (outs ! length delays))"
proof -
  have p: "retries < 0 + length outs" and q: "0 \<le> retries"
    using assms by (simp_all add: retries_def)
  obtain delays res where
    req: "request 0 outs = Some (delays, res)"
    and len: "0 + length delays \<le> retries"
    and each: "\<forall>n < length delays.
             retryable_failure (outs ! n)
             \<and> delays ! n = (0 + n + 1) * (if is_429 (outs ! n) then 2000 else 1000)"
    and fin: "settle (outs ! length delays) = res"
    and stop: "\<forall>err. res = Rejected err \<longrightarrow> 0 + length delays < retries
             \<longrightarrow> \<not> retryable_failure (outs ! length delays)"
    using request_policy [OF p q] by blast
  have "axios_get outs = Some (delays, res)"
    using req by (simp add: axios_get_def)
  moreover have "length delays \<le> 3"
    using len by (simp add: retries_def)
  moreover have "\<forall>n < length delays.
             retryable_failure (outs ! n)
             \<and> delays ! n = (n + 1) * (if is_429 (outs ! n) then 2000 else 1000)"
    using each by simp
  moreover have "\<forall>err. res = Rejected err \<longrightarrow> length delays < 3
             \<longrightarrow> \<not> retryable_failure (outs ! length delays)"
    using stop by (simp add: retries_def)
  ultimately show ?thesis
    using fin by blast
qed

theorem retry_policy_witness:
  "4 \<le> length [HttpResponse 500 [], HttpResponse 429 [], NetworkFailure ''ECONNABORTED'',
                 HttpResponse 404 []]
   \<and> axios_get [HttpResponse 500 [], HttpResponse 429 [], NetworkFailure ''ECONNABORTED'',
                 HttpResponse 404 []]
     = Some ([1000, 4000, 3000], Rejected \<lparr>response_status = Some 404, code = None\<rparr>)"
  using retry_policy [of "[HttpResponse 500 [], HttpResponse 429 [],
                           NetworkFailure ''ECONNABORTED'', HttpResponse 404 []]"]
  by (simp add: axios_get_def settle_def validateStatus_def retries_def retryCondition_def
      retryDelay_def)

subsection \<open>Writing the checkpoint\<close>

lemma tmp_differs: "filePath @ ''.tmp'' \<noteq> filePath"
proof
  assume "filePath @ ''.tmp'' = filePath"
  then have "length (filePath @ ''.tmp'') = length filePath" by simp
  then show False by simp
qed

lemma safeWriteFileSync_result:
  "safeWriteFileSync old filePath d
     = Inr ((old(filePath @ ''.tmp'' := None))(filePath \<mapsto> d))"
  by (simp add: safeWriteFileSync_def writeFileSync_def renameSync_def Let_def)

lemma safeWriteFileSync_states_last:
  "last (safeWriteFileSync_states old filePath d)
     = (old(filePath @ ''.tmp'' := None))(filePath \<mapsto> d)"
  by (simp add: safeWriteFileSync_states_def writeFileSync_def renameSync_def Let_def)

lemma safeWriteFileSync_states_target:
  assumes "fls \<in> set (safeWriteFileSync_states old filePath d)"
  shows "fls filePath = old filePath \<or> fls filePath = Some d"
proof -
  let ?tmp = "filePath @ ''.tmp''"
  from assms consider
      "fls = old"
    | k where "fls = writeFileSync old ?tmp (take k d)"
    | "fls = (old(?tmp := None))(filePath \<mapsto> d)"
    by (auto simp: safeWriteFileSync_states_def writeFileSync_def renameSync_def Let_def
        simp del: upt_Suc)
  then show ?thesis
  proof cases
    case 1
    then show ?thesis by simp
  next
    case 2
    then show ?thesis using tmp_differs [of filePath] by (simp add: writeFileSync_def)
  next
    case 3
    then show ?thesis by simp
  qed
qed

lemma loadProgress_same:
  "fls pf = old pf \<Longrightarrow>
     loadProgress fls pf = loadProgress old pf"
  by (simp add: loadProgress_def existsSync_def readFileSync_def)

lemma loadProgress_saved:
  "fls pf = Some (JSON_stringify page) \<Longrightarrow> loadProgress fls pf = Inr page"
  by (simp add: loadProgress_def existsSync_def readFileSync_def JSON_roundtrip)

text \<open>
  C3. Every write of the checkpoint goes through \<open>safeWriteFileSync\<close>, which writes the
  serialized value to the temporary file and then renames it over the checkpoint path. In
  every state of the file system that the write passes through (the process may stop in
  any of them) the checkpoint path holds the old content or the whole new content, so
  \<open>loadProgress\<close> returns what it returned before the write or the new page; after the
  write it returns the new page.
\<close>

theorem checkpoint_write_atomic:
  "saveProgress old pf page
     = renameSync (writeFileSync old (pf @ ''.tmp'') (JSON_stringify page))
         (pf @ ''.tmp'') pf
   \<and> saveProgress old pf page
     = Inr (last (safeWriteFileSync_states old pf (JSON_stringify page)))
   \<and> (\<forall>fls \<in> set (safeWriteFileSync_states old pf (JSON_stringify page)).
         (fls pf = old pf
            \<and> loadProgress fls pf = loadProgress old pf)
         \<or> (fls pf = Some (JSON_stringify page)
            \<and> loadProgress fls pf = Inr page))
   \<and> loadProgress (last (safeWriteFileSync_states old pf (JSON_stringify page)))
        pf = Inr page"
proof (intro conjI ballI)
  show "saveProgress old pf page
     = renameSync (writeFileSync old (pf @ ''.tmp'') (JSON_stringify page))
         (pf @ ''.tmp'') pf"
    by (simp add: saveProgress_def safeWriteFileSync_def Let_def)
  show "saveProgress old pf page
     = Inr (last (safeWriteFileSync_states old pf (JSON_stringify page)))"
    by (simp only: saveProgress_def safeWriteFileSync_result safeWriteFileSync_states_last)
  show "loadProgress (last (safeWriteFileSync_states old pf (JSON_stringify page)))
        pf = Inr page"
    by (rule loadProgress_saved) (simp add: safeWriteFileSync_states_last)
next
  fix fls
  assume "fls \<in> set (safeWriteFileSync_states old pf (JSON_stringify page))"
  then have "fls pf = old pf
      \<or> fls pf = Some (JSON_stringify page)"
    by (rule safeWriteFileSync_states_target)
  then show "(fls pf = old pf
            \<and> loadProgress fls pf = loadProgress old pf)
         \<or> (fls pf = Some (JSON_stringify page)
            \<and> loadProgress fls pf = Inr page)"
    using loadProgress_same loadProgress_saved by blast
qed

text \<open>
  The checkpoint holds page 1 and page 2 is being saved; the process stops when five
  characters of the new text are in the temporary file: a reader still finds page 1.
\<close>

theorem checkpoint_write_atomic_witness:
  "writeFileSync [''o.progress'' \<mapsto> JSON_stringify 1] ''o.progress.tmp''
       (take 5 (JSON_stringify 2))
     \<in> set (safeWriteFileSync_states [''o.progress'' \<mapsto> JSON_stringify 1] ''o.progress''
              (JSON_stringify 2))
   \<and> loadProgress
        (writeFileSync [''o.progress'' \<mapsto> JSON_stringify 1] ''o.progress.tmp''
           (take 5 (JSON_stringify 2))) ''o.progress'' = Inr 1
   \<and> loadProgress
        (last (safeWriteFileSync_states [''o.progress'' \<mapsto> JSON_stringify 1] ''o.progress''
           (JSON_stringify 2))) ''o.progress'' = Inr 2"
proof -
  let ?old = "[''o.progress'' \<mapsto> JSON_stringify 1]"
  let ?fls = "writeFileSync ?old ''o.progress.tmp'' (take 5 (JSON_stringify 2))"
  have len: "5 < Suc (length (JSON_stringify 2))"
    by (simp add: JSON_stringify_def)
  have mem: "?fls \<in> set (safeWriteFileSync_states ?old ''o.progress'' (JSON_stringify 2))"
    unfolding safeWriteFileSync_states_def Let_def using len
    by (auto simp del: upt_Suc intro!: image_eqI [where x = 5])
  have old: "loadProgress ?fls ''o.progress'' = Inr 1"
    by (simp add: loadProgress_def existsSync_def readFileSync_def writeFileSync_def
        JSON_roundtrip)
  show ?thesis
    using mem old checkpoint_write_atomic [of ?old "''o.progress''" 2] by simp
qed

subsection \<open>Scheduling\<close>

lemma page_url_inj: "page_url u m = page_url u n \<Longrightarrow> m = n"
  by (simp add: page_url_def string_of_nat_inj)

lemma pageUrls_eq: "pageUrls s = map (page_url (url s)) [1..<Suc (totalPages s)]"
proof -
  have "map (\<lambda>i. page_url (url s) (i + 1)) [0..<totalPages s]
      = map (page_url (url s)) (map Suc [0..<totalPages s])"
    by simp
  also have "map Suc [0..<totalPages s] = [1..<Suc (totalPages s)]"
    by (simp only: map_Suc_upt One_nat_def)
  finally show ?thesis by (simp add: pageUrls_def)
qed

lemma drop_upt_from: "drop k [1..<Suc n] = [Suc k..<Suc n]"
  by (simp add: drop_upt)

lemma scheduled_from:
  assumes "1 \<le> lastScrapedPage s"
  shows "scheduled s = map (page_url (url s)) [nat (lastScrapedPage s)..<Suc (totalPages s)]"
proof -
  let ?F = "lastScrapedPage s" and ?P = "totalPages s"
  have len: "length (pageUrls s) = ?P" by (simp add: pageUrls_def)
  have "scheduled s = drop (nat (min (?F - 1) (int ?P))) (pageUrls s)"
    using assms by (simp add: scheduled_def slice_def Let_def len)
  also have "\<dots> = map (page_url (url s)) (drop (nat (min (?F - 1) (int ?P))) [1..<Suc ?P])"
    by (simp only: pageUrls_eq drop_map)
  also have "drop (nat (min (?F - 1) (int ?P))) [1..<Suc ?P] = [nat ?F..<Suc ?P]"
  proof (cases "?F - 1 \<le> int ?P")
    case True
    then have "nat (min (?F - 1) (int ?P)) = nat ?F - 1" by simp
    moreover have "Suc (nat ?F - 1) = nat ?F" using assms by simp
    ultimately show ?thesis by (simp only: drop_upt_from)
  next
    case False
    then have "nat (min (?F - 1) (int ?P)) = ?P" by simp
    moreover have "Suc ?P \<le> nat ?F" using False by simp
    ultimately show ?thesis by simp
  qed
  finally show ?thesis .
qed

lemma distinct_page_urls: "distinct (map (page_url u) [m..<n])"
  by (simp add: distinct_map inj_on_def) (metis page_url_inj)

lemma total_onopentag_fields:
  "url (total_onopentag name attributes s) = url s
   \<and> lastScrapedPage (total_onopentag name attributes s) = lastScrapedPage s
   \<and> totalPages s \<le> totalPages (total_onopentag name attributes s)"
  by (simp add: total_onopentag_def Let_def split: option.splits)

lemma total_events_fields:
  "url (total_events evs s) = url s
   \<and> lastScrapedPage (total_events evs s) = lastScrapedPage s
   \<and> totalPages s \<le> totalPages (total_events evs s)"
proof (induction evs s rule: total_events.induct)
  case (2 name attributes evs s)
  then show ?case
    using total_onopentag_fields [of name attributes s] by simp
qed simp_all

lemma prepare_fields:
  assumes "prepare seed s = Inr s1"
  shows "url s1 = url s \<and> loadProgress (files s) (progressFile s) = Inr (lastScrapedPage s1)
         \<and> totalPages s \<le> totalPages s1"
proof -
  from assms obtain page r where
    l: "loadProgress (files s) (progressFile s) = Inr page"
    and r: "seed = Resolved r"
    and s1: "s1 = total_events (data r) (s\<lparr>lastScrapedPage := page\<rparr>)"
    by (auto simp: prepare_def getTotalPages_def split: sum.splits fetch_result.splits)
  show ?thesis
    using l total_events_fields [of "data r" "s\<lparr>lastScrapedPage := page\<rparr>"]
    by (simp add: s1)
qed

lemma loadProgress_absent: "\<not> existsSync fls pf \<Longrightarrow> loadProgress fls pf = Inr 1"
  by (simp add: loadProgress_def)

text \<open>
  C9. On a fresh run (no progress file, so the loaded value is 1), once the page count
  \<open>P \<ge> 1\<close> is discovered, the tasks added to the queue are exactly those for the page
  URLs \<^verbatim>\<open>url?page=N\<close> with \<open>N = 1, ..., P\<close>, in this order: \<open>P\<close> tasks, all distinct.
\<close>

theorem fresh_run_schedules_every_page:
  assumes "\<not> existsSync (files s) (progressFile s)"
    and "prepare seed s = Inr s1"
    and "totalPages s1 = P"
    and "1 \<le> P"
  shows "lastScrapedPage s1 = 1
       \<and> scheduled s1 = map (\<lambda>N. url s @ ''?page='' @ string_of_nat N) [1..<Suc P]
       \<and> length (scheduled s1) = P
       \<and> distinct (scheduled s1)"
proof -
  have one: "lastScrapedPage s1 = 1" and u: "url s1 = url s"
    using prepare_fields [OF assms(2)] loadProgress_absent [OF assms(1)] by simp_all
  have sch: "scheduled s1 = map (page_url (url s)) [1..<Suc P]"
    using scheduled_from [of s1] one u assms(3) by simp
  have "map (page_url (url s)) [1..<Suc P]
      = map (\<lambda>N. url s @ ''?page='' @ string_of_nat N) [1..<Suc P]"
    by (simp add: page_url_def)
  then show ?thesis
    using one sch distinct_page_urls [of "url s" 1 "Suc P"] by simp
qed

theorem fresh_run_schedules_every_page_witness:
  "\<not> existsSync (files fresh) (progressFile fresh)
   \<and> (case prepare seed3 fresh of
         Inl e \<Rightarrow> False
       | Inr s1 \<Rightarrow> totalPages s1 = 3
           \<and> scheduled s1 = [''u?page=1'', ''u?page=2'', ''u?page=3''])"
proof -
  have a: "\<not> existsSync (files fresh) (progressFile fresh)"
    by code_simp
  have "case prepare seed3 fresh of Inl e \<Rightarrow> False | Inr s1 \<Rightarrow> totalPages s1 = 3"
    by code_simp
  then obtain s1 where b: "prepare seed3 fresh = Inr s1" and c: "totalPages s1 = 3"
    by (auto split: sum.splits)
  have d: "url fresh = ''u''"
    by code_simp
  have e: "map (\<lambda>N. ''u'' @ ''?page='' @ string_of_nat N) [1..<Suc 3]
      = [''u?page=1'', ''u?page=2'', ''u?page=3'']"
    by code_simp
  show ?thesis
    using a b c e fresh_run_schedules_every_page [OF a b c] by (simp add: d)
qed

text \<open>
  C2 as stated fails: with the persisted value 2 and three pages, a task is added for
  page 2 itself; and with the persisted value 0 the only task added is the one for the
  last page, since a negative start of \<^verbatim>\<open>slice\<close> counts from the end.
\<close>

theorem resume_refetches_loaded_page:
  "persisted resumed_at_2 = Inr 2
   \<and> (case prepare seed3 resumed_at_2 of
         Inl e \<Rightarrow> False
       | Inr s1 \<Rightarrow> totalPages s1 = 3
           \<and> scheduled s1 = [page_url ''u'' 2, page_url ''u'' 3])
   \<and> persisted resumed_at_0 = Inr 0
   \<and> (case prepare seed3 resumed_at_0 of
         Inl e \<Rightarrow> False
       | Inr s1 \<Rightarrow> totalPages s1 = 3 \<and> scheduled s1 = [page_url ''u'' 3])"
  by code_simp

text \<open>
  C2, amended. For a loaded value \<open>F \<ge> 1\<close> and page count \<open>P\<close>, the tasks added are
  exactly those for the pages \<open>F, ..., P\<close>, one each: no task for a page below \<open>F\<close>, and
  one for page \<open>F\<close> itself.
\<close>

theorem resume_schedules_from_loaded_page:
  assumes "prepare seed s = Inr s1"
    and "loadProgress (files s) (progressFile s) = Inr F"
    and "1 \<le> F"
    and "totalPages s1 = P"
  shows "scheduled s1 = map (\<lambda>N. url s @ ''?page='' @ string_of_nat N) [nat F..<Suc P]
       \<and> distinct (scheduled s1)
       \<and> (\<forall>N. page_url (url s) N \<in> set (scheduled s1) \<longleftrightarrow> nat F \<le> N \<and> N \<le> P)"
proof -
  have F: "lastScrapedPage s1 = F" and u: "url s1 = url s"
    using prepare_fields [OF assms(1)] assms(2) by simp_all
  have sch: "scheduled s1 = map (page_url (url s)) [nat F..<Suc P]"
    using scheduled_from [of s1] F u assms(3,4) by simp
  have "\<forall>N. page_url (url s) N \<in> set (scheduled s1) \<longleftrightarrow> nat F \<le> N \<and> N \<le> P"
  proof
    fix N
    have "page_url (url s) N \<in> page_url (url s) ` {nat F..<Suc P} \<longleftrightarrow> N \<in> {nat F..<Suc P}"
      using page_url_inj [of "url s"] by blast
    then show "page_url (url s) N \<in> set (scheduled s1) \<longleftrightarrow> nat F \<le> N \<and> N \<le> P"
      by (simp add: sch del: upt_Suc) auto
  qed
  moreover have "map (page_url (url s)) [nat F..<Suc P]
      = map (\<lambda>N. url s @ ''?page='' @ string_of_nat N) [nat F..<Suc P]"
    by (simp add: page_url_def)
  ultimately show ?thesis
    using sch distinct_page_urls [of "url s" "nat F" "Suc P"] by simp
qed

theorem resume_schedules_from_loaded_page_witness:
  "loadProgress (files resumed_at_2) (progressFile resumed_at_2) = Inr 2
   \<and> (1::int) \<le> 2
   \<and> (case prepare seed3 resumed_at_2 of
         Inl e \<Rightarrow> False
       | Inr s1 \<Rightarrow> totalPages s1 = 3 \<and> scheduled s1 = [''u?page=2'', ''u?page=3''])"
proof -
  have a: "loadProgress (files resumed_at_2) (progressFile resumed_at_2) = Inr 2"
    by code_simp
  have "case prepare seed3 resumed_at_2 of Inl e \<Rightarrow> False | Inr s1 \<Rightarrow> totalPages s1 = 3"
    by code_simp
  then obtain s1 where b: "prepare seed3 resumed_at_2 = Inr s1" and c: "totalPages s1 = 3"
    by (auto split: sum.splits)
  have d: "url resumed_at_2 = ''u''"
    by code_simp
  have e: "map (\<lambda>N. ''u'' @ ''?page='' @ string_of_nat N) [nat 2..<Suc 3]
      = [''u?page=2'', ''u?page=3'']"
    by code_simp
  have "scheduled s1 = map (\<lambda>N. url resumed_at_2 @ ''?page='' @ string_of_nat N) [nat 2..<Suc 3]"
    using resume_schedules_from_loaded_page [OF b a _ c] by simp
  then show ?thesis
    using a b c e by (simp add: d)
qed

subsection \<open>The output target\<close>

lemma writeRow_state:
  "outputFile (writeRow cfg r s) = outputFile s
   \<and> header (writeRow cfg r s) = header s
   \<and> records (writeRow cfg r s) = Suc (records s)
   \<and> files (writeRow cfg r s) (outputFile s)
       = Some (content (files s) (outputFile s)
               @ (if records s = 0 \<and> header s then csv_line (csvHeaders cfg) else [])
               @ csv_line (row_values cfg r))"
  by (simp add: writeRow_def Let_def appendFile_def content_def)

lemma write_rows_Cons: "write_rows cfg (r # rs) s = write_rows cfg rs (writeRow cfg r s)"
  by (simp add: write_rows_def)

lemma write_rows_state:
  "outputFile (write_rows cfg rs s) = outputFile s
   \<and> header (write_rows cfg rs s) = header s
   \<and> records (write_rows cfg rs s) = records s + length rs
   \<and> (rs \<noteq> [] \<longrightarrow> files (write_rows cfg rs s) (outputFile s)
       = Some (content (files s) (outputFile s)
               @ (if records s = 0 \<and> header s then csv_line (csvHeaders cfg) else [])
               @ rows_text cfg rs))"
proof (induction rs arbitrary: s)
  case Nil
  show ?case by (simp add: write_rows_def)
next
  case (Cons r rs)
  note step = writeRow_state [of cfg r s]
  note ih = Cons.IH [of "writeRow cfg r s"]
  show ?case
  proof (cases "rs = []")
    case True
    then show ?thesis
      using step by (simp add: write_rows_def rows_text_def)
  next
    case False
    then show ?thesis
      using step ih by (simp add: write_rows_Cons rows_text_def content_def)
  qed
qed

lemma WebScraper_sink:
  "outputFile (WebScraper u out fls) = out
   \<and> header (WebScraper u out fls) = (fls out = None)
   \<and> records (WebScraper u out fls) = 0
   \<and> files (WebScraper u out fls) out = Some (content fls out)"
  by (simp add: WebScraper_def initializeCsvStream_def existsSync_def appendFile_def content_def)

lemma sink_run_content:
  "files (sink_run cfg u out fls rs) out
     = Some ((case fls out of None \<Rightarrow> csv_line (csvHeaders cfg) | Some old \<Rightarrow> old)
             @ rows_text cfg rs)"
proof -
  let ?s = "WebScraper u out fls"
  note w = WebScraper_sink [of u out fls]
  note r = write_rows_state [of cfg rs ?s]
  show ?thesis
  proof (cases "rs = []")
    case True
    then show ?thesis
      using w by (simp add: sink_run_def closeCsvStream_def write_rows_def appendFile_def
          rows_text_def content_def split: option.splits)
  next
    case False
    then have "records (write_rows cfg rs ?s) \<noteq> 0"
      using r by simp
    then have "files (sink_run cfg u out fls rs) out = files (write_rows cfg rs ?s) out"
      by (simp add: sink_run_def closeCsvStream_def)
    then show ?thesis
      using False w r by (simp add: content_def split: option.splits)
  qed
qed

text \<open>
  C5. When the target does not exist as the output is opened, the file a run leaves
  starts with the header line, the schema column names in declared order, written once,
  followed by the run's records; when the target exists, the run's records are appended
  to the existing content and no header line is written. So two runs in a row on a target
  that did not exist leave the header once, then the records of both runs.
\<close>

theorem header_written_once:
  "files (sink_run cfg u out fls rs) out
     = Some ((case fls out of
                None \<Rightarrow> csv_line (csvHeaders cfg)
              | Some old \<Rightarrow> old)
             @ rows_text cfg rs)
   \<and> (fls out = None \<longrightarrow>
        files (sink_run cfg u out (files (sink_run cfg u out fls rs)) rs2) out
          = Some (csv_line (csvHeaders cfg) @ rows_text cfg rs @ rows_text cfg rs2))"
  by (simp add: sink_run_content)

theorem header_written_once_witness:
  "Map.empty ''o'' = (None :: string option)
   \<and> files (sink_run example_config ''u'' ''o'' Map.empty [[(''name'', Str ''Alice'')]]) ''o''
      = Some ''name,age\<newline>Alice,\<newline>''
   \<and> files (sink_run example_config ''u'' ''o''
              (files (sink_run example_config ''u'' ''o'' Map.empty [[(''name'', Str ''Alice'')]]))
              [[(''age'', Str ''30'')]]) ''o''
      = Some ''name,age\<newline>Alice,\<newline>,30\<newline>''"
proof -
  have a: "csv_line (csvHeaders example_config) = ''name,age\<newline>''"
    by code_simp
  have b: "rows_text example_config [[(''name'', Str ''Alice'')]] = ''Alice,\<newline>''"
    by code_simp
  have c: "rows_text example_config [[(''age'', Str ''30'')]] = '',30\<newline>''"
    by code_simp
  show ?thesis
    using header_written_once [of example_config "''u''" "''o''" Map.empty
        "[[(''name'', Str ''Alice'')]]" "[[(''age'', Str ''30'')]]"]
    by (simp add: a b c)
qed

subsection \<open>Cells\<close>










subsection \<open>Anchors\<close>





subsection \<open>State kept between pages\<close>









text \<open>
  A page that stops inside a row leaves nothing behind: ending the parser closes the open
  cell and the open row, so the record is written and the next page starts from an empty
  record.
\<close>

lemma unclosed_row_is_closed_at_end:
  "(case parsePage example_config
       [OpenTag ''tr'' [], OpenTag ''td'' [], Text ''Alice'', CloseTag ''td'',
        OpenTag ''td'' [], Text ''3''] fresh of
      Inl e \<Rightarrow> False
    | Inr s1 \<Rightarrow>
        currentRow s1 = Some [] \<and> currentCell s1 = Undefined
        \<and> files s1 ''o'' = Some ''name,age\<newline>Alice,3\<newline>'')"
  by code_simp



subsection \<open>What a page changes\<close>

lemma appendFile_other: "p \<noteq> path \<Longrightarrow> appendFile fls path d p = fls p"
  by (simp add: appendFile_def)

lemma writeRow_frame:
  "progressFile (writeRow cfg r s) = progressFile s
   \<and> outputFile (writeRow cfg r s) = outputFile s
   \<and> lastScrapedPage (writeRow cfg r s) = lastScrapedPage s
   \<and> log (writeRow cfg r s) = log s
   \<and> (p \<noteq> outputFile s \<longrightarrow> files (writeRow cfg r s) p = files s p)"
  by (simp add: writeRow_def Let_def appendFile_other)

lemma same_progress_refl: "same_progress p s s"
  by (simp add: same_progress_def)

lemma same_progress_trans:
  "same_progress p s s1 \<Longrightarrow> same_progress p s1 s2 \<Longrightarrow> same_progress p s s2"
  by (auto simp: same_progress_def)

lemma onopentag_frame: "onopentag cfg name attributes s = Inr s1 \<Longrightarrow> same_progress p s s1"
  by (auto simp: same_progress_def onopentag_def Let_def set_column_def
      split: if_splits option.splits)

lemma ontext_frame: "same_progress p s (ontext cfg t s)"
  by (auto simp: same_progress_def ontext_def split: cell.splits)

lemma writeRow_same_progress: "same_progress p s ((writeRow cfg r s)\<lparr>currentRow := v\<rparr>)"
  using writeRow_frame [of cfg r s p] by (auto simp: same_progress_def)

lemma close_td_frame: "close_td cfg s = Inr s1 \<Longrightarrow> same_progress p s s1"
  by (auto simp: same_progress_def close_td_def find_column_def set_column_def
      split: if_splits option.splits sum.splits)

lemma close_tr_frame: "close_tr cfg s = Inr s1 \<Longrightarrow> same_progress p s s1"
  using writeRow_same_progress [of p s _ cfg]
  by (auto simp: close_tr_def same_progress_refl split: if_splits option.splits)

lemma onclosetag_frame:
  assumes "onclosetag cfg name s = Inr s1"
  shows "same_progress p s s1"
proof -
  obtain s0 where td: "(if name = ''td'' then close_td cfg s else Inr s) = Inr s0"
    and tr: "(if name = ''tr'' then close_tr cfg s0 else Inr s0) = Inr s1"
    using assms by (auto simp: onclosetag_def split: sum.splits)
  have "same_progress p s s0"
    using td close_td_frame same_progress_refl by (auto split: if_splits)
  moreover have "same_progress p s0 s1"
    using tr close_tr_frame same_progress_refl by (auto split: if_splits)
  ultimately show ?thesis
    by (rule same_progress_trans)
qed

lemma closetags_frame: "same_progress p s (state_left (closetags cfg names s))"
proof (induction names arbitrary: s)
  case Nil
  show ?case by (simp add: state_left_def same_progress_refl)
next
  case (Cons name names)
  show ?case
  proof (cases "onclosetag cfg name s")
    case (Inl e)
    then show ?thesis by (simp add: state_left_def same_progress_refl)
  next
    case (Inr s1)
    from same_progress_trans [OF onclosetag_frame [OF Inr] Cons.IH [of s1]] show ?thesis
      using Inr by simp
  qed
qed

lemma parser_opentag_frame:
  "same_progress p s (state_reached (parser_opentag cfg name attributes stack s))"
proof -
  let ?implied = "takeWhile (\<lambda>el. el \<in> set (openImpliesClose name)) stack"
  note c = closetags_frame [of p s cfg ?implied]
  show ?thesis
  proof (cases "closetags cfg ?implied s")
    case (Inl es)
    then show ?thesis
      using c by (cases es) (simp add: parser_opentag_def Let_def state_reached_def state_left_def)
  next
    case (Inr s1)
    then have f1: "same_progress p s s1"
      using c by (simp add: state_left_def)
    show ?thesis
    proof (cases "onopentag cfg name attributes s1")
      case (Inl e)
      then show ?thesis
        using Inr f1 by (simp add: parser_opentag_def Let_def state_reached_def)
    next
      case open_ok: (Inr s2)
      then have f2: "same_progress p s s2"
        using f1 onopentag_frame same_progress_trans by blast
      show ?thesis
      proof (cases "onclosetag cfg name s2")
        case (Inl e)
        then show ?thesis
          using Inr open_ok f2 by (simp add: parser_opentag_def Let_def state_reached_def)
      next
        case close_ok: (Inr s3)
        then have "same_progress p s s3"
          using f2 onclosetag_frame same_progress_trans by blast
        then show ?thesis
          using Inr open_ok close_ok f2
          by (simp add: parser_opentag_def Let_def state_reached_def)
      qed
    qed
  qed
qed

lemma parser_closetag_frame:
  "same_progress p s (state_reached (parser_closetag cfg name stack s))"
proof (cases "name \<in> set stack \<and> name \<notin> set voidElements")
  case True
  let ?closed = "takeWhile (\<lambda>el. el \<noteq> name) stack @ [name]"
  note c = closetags_frame [of p s cfg ?closed]
  show ?thesis
  proof (cases "closetags cfg ?closed s")
    case (Inl es)
    then show ?thesis
      using c True
      by (cases es) (simp add: parser_closetag_def state_reached_def state_left_def)
  next
    case (Inr s1)
    then show ?thesis
      using c True by (simp add: parser_closetag_def state_reached_def state_left_def)
  qed
next
  case False
  show ?thesis
  proof (cases "name = ''p'' \<or> name = ''br''")
    case no: False
    have "parser_closetag cfg name stack s = Inr (stack, s)"
      using False no by (auto simp: parser_closetag_def)
    then show ?thesis
      by (simp add: state_reached_def same_progress_refl)
  next
    case True
    show ?thesis
    proof (cases "onopentag cfg name [] s")
      case (Inl e)
      then show ?thesis
        using False True
        by (auto simp: parser_closetag_def state_reached_def same_progress_refl)
    next
      case open_ok: (Inr s1)
      then have f1: "same_progress p s s1"
        by (rule onopentag_frame)
      show ?thesis
      proof (cases "onclosetag cfg name s1")
        case (Inl e)
        then show ?thesis
          using False True open_ok f1 by (auto simp: parser_closetag_def state_reached_def)
      next
        case close_ok: (Inr s2)
        then have "same_progress p s s2"
          using f1 onclosetag_frame same_progress_trans by blast
        then show ?thesis
          using False True open_ok close_ok
          by (auto simp: parser_closetag_def state_reached_def)
      qed
    qed
  qed
qed

lemma parser_write_frame:
  "same_progress p s (state_reached (parser_write cfg evs stack s))"
proof (induction evs arbitrary: stack s)
  case Nil
  show ?case by (simp add: state_reached_def same_progress_refl)
next
  case (Cons ev evs)
  let ?step = "case ev of
              OpenTag name attributes \<Rightarrow> parser_opentag cfg name attributes stack s
            | Text t \<Rightarrow> Inr (stack, ontext cfg t s)
            | CloseTag name \<Rightarrow> parser_closetag cfg name stack s"
  have step: "same_progress p s (state_reached ?step)"
    using parser_opentag_frame parser_closetag_frame ontext_frame
    by (cases ev) (simp_all add: state_reached_def)
  show ?case
  proof (cases ?step)
    case (Inl es)
    then show ?thesis
      using step by (cases es) (simp add: state_reached_def)
  next
    case (Inr ss)
    obtain stack1 s1 where ss: "ss = (stack1, s1)" by (cases ss)
    have "same_progress p s s1"
      using step Inr ss by (simp add: state_reached_def)
    from same_progress_trans [OF this Cons.IH [of s1 stack1]] show ?thesis
      using Inr ss by simp
  qed
qed

lemma parsePage_same_progress: "same_progress p s (state_left (parsePage cfg evs s))"
proof (cases "parser_write cfg evs [] s")
  case (Inl es)
  then show ?thesis
    using parser_write_frame [of p s cfg evs "[]"]
    by (cases es) (simp add: parsePage_def state_left_def state_reached_def)
next
  case (Inr ss)
  obtain stack s1 where ss: "ss = (stack, s1)" by (cases ss)
  have "same_progress p s s1"
    using parser_write_frame [of p s cfg evs "[]"] Inr ss by (simp add: state_reached_def)
  from same_progress_trans [OF this closetags_frame [of p s1 cfg stack]] show ?thesis
    using Inr ss by (simp add: parsePage_def parser_end_def)
qed

lemma parsePage_frame:
  "(case parsePage cfg evs s of Inl (e, s1) \<Rightarrow> s1 | Inr s1 \<Rightarrow> s1) = s2 \<Longrightarrow>
     progressFile s2 = progressFile s
   \<and> outputFile s2 = outputFile s
   \<and> lastScrapedPage s2 = lastScrapedPage s
   \<and> log s2 = log s
   \<and> (p \<noteq> outputFile s \<longrightarrow> files s2 p = files s p)"
  using parsePage_same_progress [of p s cfg evs]
  by (auto simp: same_progress_def state_left_def)

lemma scrapePage_frame:
  assumes "scrapePage cfg pageUrl res s = (out, s1)"
  shows "progressFile s1 = progressFile s
   \<and> outputFile s1 = outputFile s
   \<and> lastScrapedPage s1 = lastScrapedPage s
   \<and> (p \<noteq> outputFile s \<longrightarrow> files s1 p = files s p)"
proof (cases res)
  case (Rejected err)
  then show ?thesis using assms by (auto simp: scrapePage_def Let_def)
next
  case (Resolved r)
  show ?thesis
  proof (cases "status r = 200")
    case False
    then show ?thesis using assms Resolved by (auto simp: scrapePage_def Let_def)
  next
    case True
    let ?s0 = "s\<lparr>log := log s @ [Info_Scraping_page pageUrl]\<rparr>"
    obtain s2 where s2: "(case parsePage cfg (data r) ?s0 of Inl (e, s3) \<Rightarrow> s3 | Inr s3 \<Rightarrow> s3) = s2"
      by simp
    note f = parsePage_frame [OF s2, of p]
    show ?thesis
      using assms Resolved True s2 f
      by (auto simp: scrapePage_def Let_def split: sum.splits prod.splits)
  qed
qed

lemma saveProgress_result:
  "saveProgress fls pf page = Inr ((fls(pf @ ''.tmp'' := None))(pf \<mapsto> JSON_stringify page))"
  by (simp add: saveProgress_def safeWriteFileSync_result)

lemma page_task_progress:
  assumes "progressFile s \<noteq> outputFile s"
    and "page_task cfg pageUrl res s = (err, s1)"
  shows "progressFile s1 = progressFile s \<and> outputFile s1 = outputFile s
   \<and> (if fst (scrapePage cfg pageUrl res s) = Inr True
       then lastScrapedPage s1 = lastScrapedPage s + 1
          \<and> files s1 (progressFile s) = Some (JSON_stringify (lastScrapedPage s))
       else lastScrapedPage s1 = lastScrapedPage s
          \<and> files s1 (progressFile s) = files s (progressFile s))"
proof -
  obtain out s0 where sp: "scrapePage cfg pageUrl res s = (out, s0)"
    by (cases "scrapePage cfg pageUrl res s")
  note f = scrapePage_frame [OF sp, of "progressFile s"]
  show ?thesis
    using assms f sp
    by (auto simp: page_task_def saveProgress_result Let_def split: sum.splits if_splits)
qed

lemma run_tasks_progress:
  assumes "progressFile s \<noteq> outputFile s"
  shows "progressFile (snd (run_tasks cfg cs s)) = progressFile s
   \<and> lastScrapedPage (snd (run_tasks cfg cs s)) = lastScrapedPage s + int (successes cfg cs s)
   \<and> files (snd (run_tasks cfg cs s)) (progressFile s)
       = (if successes cfg cs s = 0 then files s (progressFile s)
          else Some (JSON_stringify (lastScrapedPage s + int (successes cfg cs s) - 1)))"
  using assms
proof (induction cs arbitrary: s)
  case Nil
  then show ?case by simp
next
  case (Cons c cs)
  obtain pageUrl res where c: "c = (pageUrl, res)" by (cases c)
  obtain err s1 where pt: "page_task cfg pageUrl res s = (err, s1)"
    by (cases "page_task cfg pageUrl res s")
  note step = page_task_progress [OF Cons.prems pt]
  have ne: "progressFile s1 \<noteq> outputFile s1"
    using step Cons.prems by simp
  note ih = Cons.IH [OF ne]
  have run: "snd (run_tasks cfg (c # cs) s) = snd (run_tasks cfg cs s1)"
    using pt c by (cases err) (simp_all split: prod.splits)
  have suc: "successes cfg (c # cs) s
      = (if fst (scrapePage cfg pageUrl res s) = Inr True then 1 else 0) + successes cfg cs s1"
    using pt c by simp
  show ?case
  proof (cases "fst (scrapePage cfg pageUrl res s) = Inr True")
    case True
    then show ?thesis
      using step ih run suc by (simp add: algebra_simps)
  next
    case False
    then show ?thesis
      using step ih run suc by simp
  qed
qed

subsection \<open>The frontier of the specification\<close>

lemma frontier_of_all:
  assumes "distinct pages" and "set pages = {1..P}"
  shows "frontier_of pages = P"
proof -
  have len: "length pages = P"
    using distinct_card [OF assms(1)] assms(2) by simp
  have "\<forall>x \<in> set [1..<Suc P]. x \<in> set pages"
    by (simp only: set_upt assms(2) atLeastLessThanSuc_atLeastAtMost) simp
  then have tw: "takeWhile (\<lambda>n. n \<in> set pages) [1..<Suc P] = [1..<Suc P]"
    by (rule takeWhile_eq_all_conv [THEN iffD2])
  have "length [1..<Suc P] = P"
    by (simp del: upt_Suc)
  then show ?thesis
    by (simp only: frontier_of_def len tw)
qed

lemma frontier_of_prefix:
  assumes "1 \<le> n" and "n \<le> frontier_of completed"
  shows "n \<in> set completed"
proof -
  let ?xs = "[1..<Suc (length completed)]"
  let ?tw = "takeWhile (\<lambda>n. n \<in> set completed) ?xs"
  have lt: "n - 1 < length ?tw"
    using assms by (simp add: frontier_of_def)
  then have "?tw ! (n - 1) \<in> set ?tw"
    by (rule nth_mem)
  then have "?tw ! (n - 1) \<in> set completed"
    by (rule set_takeWhileD [THEN conjunct2])
  moreover have "?tw ! (n - 1) = ?xs ! (n - 1)"
    using lt by (rule takeWhile_nth)
  moreover have "n - 1 < length ?xs"
    using lt length_takeWhile_le [of "\<lambda>n. n \<in> set completed" ?xs] by linarith
  then have "?xs ! (n - 1) = n"
    using assms(1) by (simp del: upt_Suc)
  ultimately show ?thesis by simp
qed

lemma frontier_of_stops: "Suc (frontier_of completed) \<notin> set completed"
proof (cases "frontier_of completed < length completed")
  case True
  let ?xs = "[1..<Suc (length completed)]"
  let ?tw = "takeWhile (\<lambda>n. n \<in> set completed) ?xs"
  have lt: "length ?tw < length ?xs"
    using True by (simp add: frontier_of_def del: upt_Suc)
  then have "\<not> (?xs ! length ?tw) \<in> set completed"
    by (rule nth_length_takeWhile)
  moreover have "?xs ! length ?tw = Suc (length ?tw)"
    using lt by (simp del: upt_Suc)
  ultimately show ?thesis
    by (simp add: frontier_of_def del: upt_Suc)
next
  case False
  have "frontier_of completed \<le> length completed"
    using length_takeWhile_le [of "\<lambda>n. n \<in> set completed" "[1..<Suc (length completed)]"]
    by (simp add: frontier_of_def del: upt_Suc)
  with False have eq: "frontier_of completed = length completed"
    by simp
  have sub: "{1..length completed} \<subseteq> set completed"
    using frontier_of_prefix [of _ completed] eq by auto
  have "card (set completed) \<le> card {1..length completed}"
    using card_length [of completed] by simp
  with sub have "{1..length completed} = set completed"
    by (intro card_seteq) simp_all
  then have "Suc (length completed) \<in> set completed \<longleftrightarrow> Suc (length completed) \<in> {1..length completed}"
    by simp
  then show ?thesis
    using eq by simp
qed

subsection \<open>The checkpoint under out-of-order completion\<close>

lemma out_of_order_trace:
  "persisted fresh = Inr 1
   \<and> persisted (snd (run_tasks example_config [(page_url ''u'' 2, page_ok)] fresh)) = Inr 1
   \<and> persisted (snd (run_tasks example_config
         [(page_url ''u'' 2, page_ok), (page_url ''u'' 1, page_ok)] fresh)) = Inr 2
   \<and> persisted (snd (run_tasks example_config
         [(page_url ''u'' 2, page_ok), (page_url ''u'' 1, page_ok), (page_url ''u'' 3, page_ok)]
         fresh)) = Inr 3"
  by code_simp

text \<open>
  C1 as stated fails: pages 2 and 3 complete, page 1 fails with HTTP 404. No prefix of
  the pages is complete, yet the persisted value is 2.
\<close>

theorem checkpoint_passes_failed_page:
  "persisted (snd (run_tasks example_config
       [(page_url ''u'' 2, page_ok), (page_url ''u'' 3, page_ok), (page_url ''u'' 1, not_found)]
       fresh)) = Inr 2
   \<and> successes example_config
       [(page_url ''u'' 2, page_ok), (page_url ''u'' 3, page_ok), (page_url ''u'' 1, not_found)]
       fresh = 2
   \<and> frontier_of [2, 3] = 0"
  by code_simp

lemma WebScraper_paths: "progressFile (WebScraper u out fls) \<noteq> outputFile (WebScraper u out fls)"
proof -
  have "length (out @ ''.progress'') \<noteq> length out" by simp
  then have "out @ ''.progress'' \<noteq> out" by fastforce
  then show ?thesis by (simp add: WebScraper_def initializeCsvStream_def)
qed

lemma run_persisted_some:
  assumes "progressFile s \<noteq> outputFile s" and "0 < successes cfg cs s"
  shows "persisted (snd (run_tasks cfg cs s))
           = Inr (lastScrapedPage s + int (successes cfg cs s) - 1)"
proof -
  note run = run_tasks_progress [OF assms(1), of cfg cs]
  have "files (snd (run_tasks cfg cs s)) (progressFile (snd (run_tasks cfg cs s)))
      = Some (JSON_stringify (lastScrapedPage s + int (successes cfg cs s) - 1))"
    using run assms(2) by simp
  then show ?thesis
    unfolding persisted_def by (rule loadProgress_saved)
qed

lemma run_persisted_none:
  assumes "progressFile s \<noteq> outputFile s" and "successes cfg cs s = 0"
  shows "persisted (snd (run_tasks cfg cs s)) = persisted s"
proof -
  note run = run_tasks_progress [OF assms(1), of cfg cs]
  have "files (snd (run_tasks cfg cs s)) (progressFile s) = files s (progressFile s)"
    using run assms(2) by simp
  then have "loadProgress (files (snd (run_tasks cfg cs s))) (progressFile s)
      = loadProgress (files s) (progressFile s)"
    by (rule loadProgress_same)
  then show ?thesis
    using run by (simp add: persisted_def)
qed

lemma run_all_pages:
  assumes "progressFile s \<noteq> outputFile s"
    and "lastScrapedPage s = 1" and "distinct pages" and "set pages = {1..P}"
    and "successes cfg cs s = length pages"
  shows "persisted (snd (run_tasks cfg cs s))
           = (if P = 0 then persisted s else Inr (int (frontier_of pages)))
         \<and> frontier_of pages = P"
proof -
  have fr: "frontier_of pages = P"
    by (rule frontier_of_all [OF assms(3,4)])
  have len: "length pages = P"
    using distinct_card [OF assms(3)] assms(4) by simp
  show ?thesis
  proof (cases "P = 0")
    case True
    then have "successes cfg cs s = 0" using assms(5) len by simp
    from run_persisted_none [OF assms(1) this] True fr show ?thesis by simp
  next
    case False
    then have "0 < successes cfg cs s" using assms(5) len by simp
    from run_persisted_some [OF assms(1) this] False fr assms(2,5) len show ?thesis by simp
  qed
qed

text \<open>
  C1, amended. Every page task that completes successfully saves the running counter and
  then increments it, whichever page it is. So after a run in which \<open>k \<ge> 1\<close> tasks
  complete successfully the persisted value is \<open>L + k - 1\<close>, where \<open>L\<close> is the value loaded
  at the start, and it is unchanged when none does. When all pages \<open>1, ..., P\<close> of a fresh
  run complete successfully, in any order, the persisted value is \<open>P\<close>, the length of the
  longest complete prefix. With pages 1, 2, 3 where page 2 completes before page 1, the
  persisted value is 1 at the start and after page 2, 2 after page 1 and 3 after page 3.
\<close>

theorem checkpoint_counts_completions:
  assumes "progressFile s \<noteq> outputFile s"
  shows "lastScrapedPage (snd (run_tasks cfg cs s))
           = lastScrapedPage s + int (successes cfg cs s)
       \<and> (0 < successes cfg cs s \<longrightarrow>
            persisted (snd (run_tasks cfg cs s))
              = Inr (lastScrapedPage s + int (successes cfg cs s) - 1))
       \<and> (successes cfg cs s = 0 \<longrightarrow> persisted (snd (run_tasks cfg cs s)) = persisted s)
       \<and> (lastScrapedPage s = 1 \<and> distinct pages \<and> set pages = {1..P}
            \<and> successes cfg (map (\<lambda>n. (page_url (url s) n, fetch n)) pages) s = length pages
          \<longrightarrow> persisted (snd (run_tasks cfg (map (\<lambda>n. (page_url (url s) n, fetch n)) pages) s))
                = (if P = 0 then persisted s else Inr (int (frontier_of pages)))
              \<and> frontier_of pages = P)
       \<and> persisted fresh = Inr 1
       \<and> persisted (snd (run_tasks example_config [(page_url ''u'' 2, page_ok)] fresh)) = Inr 1
       \<and> persisted (snd (run_tasks example_config
             [(page_url ''u'' 2, page_ok), (page_url ''u'' 1, page_ok)] fresh)) = Inr 2
       \<and> persisted (snd (run_tasks example_config
             [(page_url ''u'' 2, page_ok), (page_url ''u'' 1, page_ok),
              (page_url ''u'' 3, page_ok)] fresh)) = Inr 3"
proof (intro conjI impI)
  show "lastScrapedPage (snd (run_tasks cfg cs s))
           = lastScrapedPage s + int (successes cfg cs s)"
    using run_tasks_progress [OF assms, of cfg cs] by (rule conjunct2 [THEN conjunct1])
  show "persisted (snd (run_tasks cfg cs s))
          = Inr (lastScrapedPage s + int (successes cfg cs s) - 1)"
    if "0 < successes cfg cs s"
    using assms that by (rule run_persisted_some)
  show "persisted (snd (run_tasks cfg cs s)) = persisted s"
    if "successes cfg cs s = 0"
    using assms that by (rule run_persisted_none)
next
  assume h: "lastScrapedPage s = 1 \<and> distinct pages \<and> set pages = {1..P}
            \<and> successes cfg (map (\<lambda>n. (page_url (url s) n, fetch n)) pages) s = length pages"
  note all = run_all_pages [OF assms h [THEN conjunct1] h [THEN conjunct2, THEN conjunct1]
      h [THEN conjunct2, THEN conjunct2, THEN conjunct1]
      h [THEN conjunct2, THEN conjunct2, THEN conjunct2]]
  show "persisted (snd (run_tasks cfg (map (\<lambda>n. (page_url (url s) n, fetch n)) pages) s))
                = (if P = 0 then persisted s else Inr (int (frontier_of pages)))"
    using all by (rule conjunct1)
  show "frontier_of pages = P"
    using all by (rule conjunct2)
next
  show "persisted fresh = Inr 1"
    using out_of_order_trace by (rule conjunct1)
  show "persisted (snd (run_tasks example_config [(page_url ''u'' 2, page_ok)] fresh)) = Inr 1"
    using out_of_order_trace by (rule conjunct2 [THEN conjunct1])
  show "persisted (snd (run_tasks example_config
             [(page_url ''u'' 2, page_ok), (page_url ''u'' 1, page_ok)] fresh)) = Inr 2"
    using out_of_order_trace by (rule conjunct2 [THEN conjunct2, THEN conjunct1])
  show "persisted (snd (run_tasks example_config
             [(page_url ''u'' 2, page_ok), (page_url ''u'' 1, page_ok),
              (page_url ''u'' 3, page_ok)] fresh)) = Inr 3"
    using out_of_order_trace by (rule conjunct2 [THEN conjunct2, THEN conjunct2])
qed

theorem checkpoint_counts_completions_witness:
  "progressFile fresh \<noteq> outputFile fresh
   \<and> 0 < successes example_config
       [(page_url ''u'' 2, page_ok), (page_url ''u'' 3, page_ok), (page_url ''u'' 1, not_found)]
       fresh
   \<and> persisted (snd (run_tasks example_config
       [(page_url ''u'' 2, page_ok), (page_url ''u'' 3, page_ok), (page_url ''u'' 1, not_found)]
       fresh))
     = Inr (lastScrapedPage fresh + int (successes example_config
       [(page_url ''u'' 2, page_ok), (page_url ''u'' 3, page_ok), (page_url ''u'' 1, not_found)]
       fresh) - 1)
   \<and> lastScrapedPage fresh + int (successes example_config
       [(page_url ''u'' 2, page_ok), (page_url ''u'' 3, page_ok), (page_url ''u'' 1, not_found)]
       fresh) - 1 = 2
   \<and> lastScrapedPage fresh = 1 \<and> distinct [2, 1, 3 :: nat] \<and> set [2, 1, 3 :: nat] = {1..3}
   \<and> successes example_config (map (\<lambda>n. (page_url (url fresh) n, page_ok)) [2, 1, 3]) fresh
       = length [2, 1, 3 :: nat]
   \<and> persisted (snd (run_tasks example_config
         (map (\<lambda>n. (page_url (url fresh) n, page_ok)) [2, 1, 3]) fresh))
       = (if (3::nat) = 0 then persisted fresh else Inr (int (frontier_of [2, 1, 3])))
   \<and> frontier_of [2, 1, 3] = 3"
proof -
  have p: "progressFile fresh \<noteq> outputFile fresh"
    unfolding fresh_def by (rule WebScraper_paths)
  have k: "0 < successes example_config
       [(page_url ''u'' 2, page_ok), (page_url ''u'' 3, page_ok), (page_url ''u'' 1, not_found)]
       fresh"
    by code_simp
  have v: "lastScrapedPage fresh + int (successes example_config
       [(page_url ''u'' 2, page_ok), (page_url ''u'' 3, page_ok), (page_url ''u'' 1, not_found)]
       fresh) - 1 = 2"
    by code_simp
  note t = checkpoint_counts_completions [OF p, of example_config
      "[(page_url ''u'' 2, page_ok), (page_url ''u'' 3, page_ok), (page_url ''u'' 1, not_found)]"
      "[2, 1, 3]" 3 "\<lambda>n. page_ok"]
  have a: "persisted (snd (run_tasks example_config
       [(page_url ''u'' 2, page_ok), (page_url ''u'' 3, page_ok), (page_url ''u'' 1, not_found)]
       fresh))
     = Inr (lastScrapedPage fresh + int (successes example_config
       [(page_url ''u'' 2, page_ok), (page_url ''u'' 3, page_ok), (page_url ''u'' 1, not_found)]
       fresh) - 1)"
    using t [THEN conjunct2, THEN conjunct1] k by (rule mp)
  have l: "lastScrapedPage fresh = 1"
    by code_simp
  have d: "distinct [2, 1, 3 :: nat]"
    by simp
  have st: "set [2, 1, 3 :: nat] = {1..3}"
  proof
    show "set [2, 1, 3 :: nat] \<subseteq> {1..3}" by simp
    show "{1..3} \<subseteq> set [2, 1, 3 :: nat]"
    proof
      fix x :: nat assume "x \<in> {1..3}"
      then have "x = 1 \<or> x = 2 \<or> x = 3" by auto
      then show "x \<in> set [2, 1, 3 :: nat]" by auto
    qed
  qed
  have k3: "successes example_config (map (\<lambda>n. (page_url (url fresh) n, page_ok)) [2, 1, 3]) fresh
      = length [2, 1, 3 :: nat]"
    by code_simp
  have h: "lastScrapedPage fresh = 1 \<and> distinct [2, 1, 3 :: nat] \<and> set [2, 1, 3 :: nat] = {1..3}
     \<and> successes example_config (map (\<lambda>n. (page_url (url fresh) n, page_ok)) [2, 1, 3]) fresh
         = length [2, 1, 3 :: nat]"
    using l d st k3 by (intro conjI)
  note b = t [THEN conjunct2, THEN conjunct2, THEN conjunct2, THEN conjunct1, THEN mp, OF h]
  show ?thesis
    using p k a v l d st k3 b [THEN conjunct1] b [THEN conjunct2] by (intro conjI)
qed

subsection \<open>Pages that fail\<close>

lemma terminal_status_rejected:
  assumes "\<not> validateStatus st" and "\<not> retryable_failure (HttpResponse st body)"
  shows "axios_get (HttpResponse st body # rest)
           = Some ([], Rejected \<lparr>response_status = Some st, code = None\<rparr>)"
proof -
  have s: "settle (HttpResponse st body) = Rejected \<lparr>response_status = Some st, code = None\<rparr>"
    using assms(1) by (simp add: settle_def)
  have "\<not> retryCondition \<lparr>response_status = Some st, code = None\<rparr>"
    using retryCondition_settle [OF s] assms(2) by simp
  then show ?thesis
    using s by (simp add: axios_get_def)
qed

lemma page_task_rejected:
  "page_task cfg pageUrl (Rejected err) s
     = (Some (RequestFailed err),
        s\<lparr>log := log s @ [Info_Scraping_page pageUrl,
                            Error_scraping_page pageUrl (RequestFailed err)]\<rparr>)"
  by (simp add: page_task_def scrapePage_def Let_def)

lemma page_task_other_status:
  "status r \<noteq> 200 \<Longrightarrow>
     page_task cfg pageUrl (Resolved r) s
       = (None,
          s\<lparr>log := log s @ [Info_Scraping_page pageUrl,
                              Warn_Unexpected_response_status (status r) pageUrl]\<rparr>)"
  by (simp add: page_task_def scrapePage_def Let_def)

text \<open>
  C8. A response with a terminal status outside 200..299 does not come back from the
  fetch as a result that carries the status: the client rejects the request with an error
  holding the status, \<open>scrapePage\<close> logs that error and rethrows it, and the page task
  is rejected with it, changing nothing but the log (so no progress is saved for the
  page). The branch of \<open>scrapePage\<close> that logs the status and returns false, after which
  the task ends normally without saving progress, is reached only by a response that
  resolves the fetch, that is, one with a status in 200..299 other than 200.
\<close>

theorem non_2xx_status_rejects_page_task:
  assumes "\<not> validateStatus st" and "\<not> retryable_failure (HttpResponse st body)"
  shows "axios_get (HttpResponse st body # rest)
           = Some ([], Rejected \<lparr>response_status = Some st, code = None\<rparr>)
       \<and> page_task cfg pageUrl (Rejected \<lparr>response_status = Some st, code = None\<rparr>) s
           = (Some (RequestFailed \<lparr>response_status = Some st, code = None\<rparr>),
              s\<lparr>log := log s
                 @ [Info_Scraping_page pageUrl,
                    Error_scraping_page pageUrl
                      (RequestFailed \<lparr>response_status = Some st, code = None\<rparr>)]\<rparr>)
       \<and> (status r \<noteq> 200 \<longrightarrow>
            page_task cfg pageUrl (Resolved r) s
              = (None,
                 s\<lparr>log := log s @ [Info_Scraping_page pageUrl,
                                     Warn_Unexpected_response_status (status r) pageUrl]\<rparr>))"
  using terminal_status_rejected [OF assms] page_task_rejected page_task_other_status
  by blast

theorem non_2xx_status_rejects_page_task_witness:
  "\<not> validateStatus 404 \<and> \<not> retryable_failure (HttpResponse 404 [])
   \<and> axios_get (HttpResponse 404 [] # [])
       = Some ([], Rejected \<lparr>response_status = Some 404, code = None\<rparr>)
   \<and> fst (page_task example_config (page_url ''u'' 1)
             (Rejected \<lparr>response_status = Some 404, code = None\<rparr>) fresh)
       = Some (RequestFailed \<lparr>response_status = Some 404, code = None\<rparr>)
   \<and> status \<lparr>status = 204, data = []\<rparr> \<noteq> 200
   \<and> fst (page_task example_config (page_url ''u'' 1)
             (Resolved \<lparr>status = 204, data = []\<rparr>) fresh) = None"
proof -
  have v: "\<not> validateStatus 404" and t: "\<not> retryable_failure (HttpResponse 404 [])"
    by (simp_all add: validateStatus_def retryable_failure_def)
  have n: "status \<lparr>status = 204, data = []\<rparr> \<noteq> 200"
    by simp
  note th = non_2xx_status_rejects_page_task [OF v t, of "[]" example_config "page_url ''u'' 1"
      fresh "\<lparr>status = 204, data = []\<rparr>"]
  have a: "axios_get (HttpResponse 404 [] # [])
       = Some ([], Rejected \<lparr>response_status = Some 404, code = None\<rparr>)"
    using th by (rule conjunct1)
  have b: "fst (page_task example_config (page_url ''u'' 1)
             (Rejected \<lparr>response_status = Some 404, code = None\<rparr>) fresh)
       = Some (RequestFailed \<lparr>response_status = Some 404, code = None\<rparr>)"
    using th [THEN conjunct2, THEN conjunct1] by (rule ssubst) (rule fst_conv)
  have c: "fst (page_task example_config (page_url ''u'' 1)
             (Resolved \<lparr>status = 204, data = []\<rparr>) fresh) = None"
    using th [THEN conjunct2, THEN conjunct2, THEN mp, OF n] by (rule ssubst) (rule fst_conv)
  show ?thesis
    using v t a b n c by (intro conjI)
qed

end

